theory Spec2Isabelle
  imports Main "HOL-Library.AList"
begin

section \<open>Values, payload objects and the codec\<close>

text \<open>
  The Topic class of the library publishes payload objects on named channels through two
  Redis clients and filters one shared \<open>message\<close> stream for its subscribers. The
  model follows the constructor and the methods \<open>enable\<close>, \<open>disable\<close>,
  \<open>publish\<close>, \<open>subscribe\<close> and \<open>unsubscribe\<close> statement by statement; the calls
  of \<open>debug\<close> only write a log line and are left out, and so are \<open>disconnect\<close> and
  the three catalogue getters, which none of the properties below concerns. What the
  JavaScript runtime and the Redis client library do is written out next to the class:
  property assignment on an object, the identity of function objects, the listener list
  of an event emitter, and the channel set of a Redis connection. The callbacks of the
  caller are opaque: a call of one is recorded, it returns normally and does not call
  the library itself.
\<close>

datatype error = TypeError | SyntaxError

datatype jsval =
    JNull
  | JBool bool
  | JNum int
  | JStr string
  | JBigInt int
  | JObj "(string \<times> jsval) list"

text \<open>
  A payload is a plain object: its own properties in insertion order. Assigning to a
  property (\<open>data.k = v\<close>) is \<open>AList.update k v data\<close>: an existing property keeps
  its place and takes the new value, a new one goes to the end.
\<close>

type_synonym jsobj = "(string \<times> jsval) list"

text \<open>
  \<open>JSON.stringify\<close> and \<open>JSON.parse\<close> belong to the platform, not to the library, and
  the library only calls them. They are a parameter of the model: \<open>stringify\<close> returns
  the wire string or the error it throws, \<open>parse\<close> the value or the error it throws.
\<close>

record codec =
  stringify :: "jsobj \<Rightarrow> error + string"
  parse :: "string \<Rightarrow> error + jsval"

definition serialize :: "codec \<Rightarrow> jsobj \<Rightarrow> error + string" where
  "serialize J data = stringify J data"

definition deserialize :: "codec \<Rightarrow> string \<Rightarrow> error + jsval" where
  "deserialize J data = parse J data"

text \<open>The entry \<open>ALL\<close> of the \<open>channels\<close> catalogue.\<close>

definition channels_ALL :: string where
  "channels_ALL = ''all''"

section \<open>The Redis client\<close>

text \<open>
  Function objects are compared by identity. Two kinds reach the library: functions of
  the caller (callbacks), and the arrow functions that \<open>subscribe\<close> creates, one per
  call, each closing over the channel and the callback of that call. The second argument
  of \<open>unsubscribe\<close> is whatever the caller passes: one of these function objects,
  or a value that is not a function (\<open>undefined\<close> when the argument is left out, as
  in the example of the class comment).
\<close>

datatype handle = Callback nat | Closure nat | NotFunction

record subscription =
  closure_id :: nat
  closure_channel :: string
  closure_callback :: nat

datatype command = PUBLISH string string | SUBSCRIBE string | UNSUBSCRIBE string

text \<open>
  A client is an object of the Redis client library (the transport handle of section 6
  of the specification), which the class creates with \<open>new Redis()\<close> and which is
  not part of the repository. The model keeps what the class can observe of it: the
  commands issued on it in call order, the set of channel names its connection is
  subscribed to, and the listeners of its \<open>message\<close> event in registration order.
  Subscribing to a channel twice leaves one subscription; unsubscribing stops the
  delivery of the channel; \<open>on\<close> appends a listener without looking for duplicates;
  \<open>removeListener\<close> removes the most recently added listener that is the given
  function object, if there is one, and throws a TypeError when it is handed a value that
  is not a function.
\<close>

record redis =
  commands :: "command list"
  subscribed :: "string list"
  listeners :: "subscription list"

definition new_Redis :: redis where
  "new_Redis = \<lparr>commands = [], subscribed = [], listeners = []\<rparr>"

definition redis_publish :: "redis \<Rightarrow> string \<Rightarrow> string \<Rightarrow> redis" where
  "redis_publish r chnl message = r\<lparr>commands := commands r @ [PUBLISH chnl message]\<rparr>"

definition redis_subscribe :: "redis \<Rightarrow> string \<Rightarrow> redis" where
  "redis_subscribe r chnl =
     r\<lparr>commands := commands r @ [SUBSCRIBE chnl],
       subscribed := List.insert chnl (subscribed r)\<rparr>"

definition redis_unsubscribe :: "redis \<Rightarrow> string \<Rightarrow> redis" where
  "redis_unsubscribe r chnl =
     r\<lparr>commands := commands r @ [UNSUBSCRIBE chnl],
       subscribed := removeAll chnl (subscribed r)\<rparr>"

definition on_message :: "redis \<Rightarrow> subscription \<Rightarrow> redis" where
  "on_message r f = r\<lparr>listeners := listeners r @ [f]\<rparr>"

fun remove_first :: "('a \<Rightarrow> bool) \<Rightarrow> 'a list \<Rightarrow> 'a list" where
  "remove_first P [] = []"
| "remove_first P (x # xs) = (if P x then xs else x # remove_first P xs)"

definition removeListener :: "redis \<Rightarrow> handle \<Rightarrow> error + redis" where
  "removeListener r h =
     (if h = NotFunction then Inl TypeError
      else Inr (r\<lparr>listeners :=
                   rev (remove_first (\<lambda>f. Closure (closure_id f) = h) (rev (listeners r)))\<rparr>))"

section \<open>The Topic class\<close>

text \<open>
  The fields of the class, and \<open>closures\<close>: the number of arrow functions created by
  \<open>subscribe\<close> so far, which gives the next one its identity. A client that was never
  created is \<open>None\<close> (the field is undefined), and calling a method on it throws a
  TypeError.
\<close>

record topic =
  disabled :: bool
  publisher :: "redis option"
  subscriber :: "redis option"
  closures :: nat

definition constructor :: topic where
  "constructor =
     (let this = \<lparr>disabled = False, publisher = None, subscriber = None, closures = 0\<rparr>
      in if disabled this then this
         else this\<lparr>publisher := Some new_Redis, subscriber := Some new_Redis\<rparr>)"

definition enable :: "topic \<Rightarrow> topic" where
  "enable this = this\<lparr>disabled := False\<rparr>"

definition disable :: "topic \<Rightarrow> topic" where
  "disable this = this\<lparr>disabled := True\<rparr>"

text \<open>
  \<open>publish\<close> returns the error it throws (\<open>None\<close> when it returns normally), the
  instance, and the payload object as the call leaves it: the caller's object is
  assigned to in place, also when a later statement throws. \<open>now\<close> is the reading of
  \<open>Date.now()\<close>.
\<close>

definition publish ::
  "codec \<Rightarrow> int \<Rightarrow> topic \<Rightarrow> string \<Rightarrow> jsobj \<Rightarrow> error option \<times> topic \<times> jsobj" where
  "publish J now this channel data =
     (if disabled this then (None, this, data)
      else
        let timestamp = now;
            data1 = AList.update ''timestamp'' (JNum timestamp) data;
            data2 = AList.update ''channel'' (JStr channel) data1
        in case serialize J data2 of
             Inl e \<Rightarrow> (Some e, this, data2)
           | Inr serial \<Rightarrow>
               (case publisher this of
                  None \<Rightarrow> (Some TypeError, this, data2)
                | Some p \<Rightarrow>
                    let p1 = (if channel \<noteq> channels_ALL
                              then redis_publish p channels_ALL serial else p);
                        p2 = redis_publish p1 channel serial
                    in (None, this\<lparr>publisher := Some p2\<rparr>, data2)))"

definition subscribe :: "topic \<Rightarrow> string \<Rightarrow> nat \<Rightarrow> error option \<times> topic" where
  "subscribe this channel callback =
     (if disabled this then (None, this)
      else case subscriber this of
             None \<Rightarrow> (Some TypeError, this)
           | Some s \<Rightarrow>
               let s1 = redis_subscribe s channel;
                   subscription = \<lparr>closure_id = closures this, closure_channel = channel,
                                   closure_callback = callback\<rparr>;
                   s2 = on_message s1 subscription
               in (None, this\<lparr>subscriber := Some s2, closures := Suc (closures this)\<rparr>))"

text \<open>
  \<open>unsubscribe\<close> unsubscribes the connection from the channel first, so the client
  has taken that command also when \<open>removeListener\<close> throws afterwards.
\<close>

definition unsubscribe :: "topic \<Rightarrow> string \<Rightarrow> handle \<Rightarrow> error option \<times> topic" where
  "unsubscribe this channel subscription =
     (if disabled this then (None, this)
      else case subscriber this of
             None \<Rightarrow> (Some TypeError, this)
           | Some s \<Rightarrow>
               let s1 = redis_unsubscribe s channel
               in case removeListener s1 subscription of
                    Inl e \<Rightarrow> (Some e, this\<lparr>subscriber := Some s1\<rparr>)
                  | Inr s2 \<Rightarrow> (None, this\<lparr>subscriber := Some s2\<rparr>))"

section \<open>The shared message stream\<close>

text \<open>
  A call of a caller's callback is recorded: through which arrow function, which callback,
  with which argument. The body of the arrow function of \<open>subscribe\<close> is
  \<open>chnl === channel && callback(deserialize(data))\<close>.
\<close>

record invocation =
  via :: nat
  fn :: nat
  arg :: jsval

definition subscription_call ::
  "codec \<Rightarrow> subscription \<Rightarrow> string \<Rightarrow> string \<Rightarrow> error + invocation list" where
  "subscription_call J f chnl data =
     (if chnl = closure_channel f
      then (case deserialize J data of
              Inl e \<Rightarrow> Inl e
            | Inr v \<Rightarrow> Inr [\<lparr>via = closure_id f, fn = closure_callback f, arg = v\<rparr>])
      else Inr [])"

text \<open>
  The event emitter of the subscriber client (sections 5 and 6 of the specification):
  every listener runs, in registration order, for every message of the stream; an error
  thrown by a listener ends the emission with the calls made so far.
\<close>

fun emit :: "codec \<Rightarrow> subscription list \<Rightarrow> string \<Rightarrow> string \<Rightarrow> invocation list \<times> error option" where
  "emit J [] chnl data = ([], None)"
| "emit J (f # fs) chnl data =
     (case subscription_call J f chnl data of
        Inl e \<Rightarrow> ([], Some e)
      | Inr is \<Rightarrow> (case emit J fs chnl data of (js, r) \<Rightarrow> (is @ js, r)))"

text \<open>
  The Redis server between the two clients (section 6 of the specification): a message
  published on a channel reaches the stream of a connection that is subscribed to the
  channel at that moment, tagged with the channel name, and no other connection.
  Delivery is taken to be immediate and in the order of the sends; what the network does
  in real time is outside the model.
\<close>

definition deliver :: "codec \<Rightarrow> redis \<Rightarrow> string \<Rightarrow> string \<Rightarrow> invocation list \<times> error option" where
  "deliver J s chnl data =
     (if chnl \<in> set (subscribed s) then emit J (listeners s) chnl data else ([], None))"

fun dispatch :: "codec \<Rightarrow> redis \<Rightarrow> command list \<Rightarrow> invocation list \<times> error option" where
  "dispatch J s [] = ([], None)"
| "dispatch J s (PUBLISH chnl data # cs) =
     (case deliver J s chnl data of
        (is, Some e) \<Rightarrow> (is, Some e)
      | (is, None) \<Rightarrow> (case dispatch J s cs of (js, r) \<Rightarrow> (is @ js, r)))"
| "dispatch J s (c # cs) = dispatch J s cs"

text \<open>The commands a call has added to a client.\<close>

definition issued :: "redis option \<Rightarrow> redis option \<Rightarrow> command list" where
  "issued earlier later =
     (case (earlier, later) of
        (Some p, Some q) \<Rightarrow> drop (length (commands p)) (commands q)
      | (None, Some q) \<Rightarrow> commands q
      | _ \<Rightarrow> [])"

text \<open>
  One call of the library by its caller, followed by the delivery of what it published
  to the subscriber client of the same instance. An error that a listener throws during
  the delivery is caught by nobody; it is reported as the outcome of the step.
\<close>

datatype request =
    Publish string jsobj int
  | Subscribe string nat
  | Unsubscribe string handle
  | Enable
  | Disable

fun step :: "codec \<Rightarrow> topic \<Rightarrow> request \<Rightarrow> error option \<times> topic \<times> invocation list" where
  "step J this (Publish channel data now) =
     (case publish J now this channel data of
        (Some e, this', data') \<Rightarrow> (Some e, this', [])
      | (None, this', data') \<Rightarrow>
          (case subscriber this' of
             None \<Rightarrow> (None, this', [])
           | Some s \<Rightarrow>
               (case dispatch J s (issued (publisher this) (publisher this')) of
                  (is, r) \<Rightarrow> (r, this', is))))"
| "step J this (Subscribe channel callback) =
     (case subscribe this channel callback of (r, this') \<Rightarrow> (r, this', []))"
| "step J this (Unsubscribe channel h) =
     (case unsubscribe this channel h of (r, this') \<Rightarrow> (r, this', []))"
| "step J this Enable = (None, enable this, [])"
| "step J this Disable = (None, disable this, [])"

text \<open>A script of calls; it ends at the first error thrown.\<close>

fun run :: "codec \<Rightarrow> topic \<Rightarrow> request list \<Rightarrow> error option \<times> topic \<times> invocation list" where
  "run J this [] = (None, this, [])"
| "run J this (q # qs) =
     (case step J this q of
        (Some e, this', is) \<Rightarrow> (Some e, this', is)
      | (None, this', is) \<Rightarrow>
          (case run J this' qs of (r, this'', js) \<Rightarrow> (r, this'', is @ js)))"

section \<open>Notions of the specification\<close>

text \<open>
  The envelope of a publication (section 3 of the specification): the payload with the
  timestamp and the channel assigned, in this order.
\<close>

definition envelope :: "string \<Rightarrow> int \<Rightarrow> jsobj \<Rightarrow> jsobj" where
  "envelope channel now data =
     AList.update ''channel'' (JStr channel) (AList.update ''timestamp'' (JNum now) data)"

text \<open>What a listener is handed for an object that went through the codec, if anything.\<close>

definition round_trip :: "codec \<Rightarrow> jsobj \<Rightarrow> jsval option" where
  "round_trip J data =
     (case serialize J data of
        Inl e \<Rightarrow> None
      | Inr serial \<Rightarrow> (case deserialize J serial of Inl e \<Rightarrow> None | Inr v \<Rightarrow> Some v))"

text \<open>
  Every arrow function on the stream was created by an earlier \<open>subscribe\<close>, and no
  two of them are the same function object.
\<close>

definition consistent :: "topic \<Rightarrow> bool" where
  "consistent this =
     (case subscriber this of
        None \<Rightarrow> True
      | Some s \<Rightarrow>
          distinct (map closure_id (listeners s)) \<and>
          (\<forall>f \<in> set (listeners s). closure_id f < closures this))"

text \<open>
  The arrow functions that let a message tagged \<open>chnl\<close> through once it is on the
  stream of the client, in registration order: none when the connection is not
  subscribed to the channel.
\<close>

definition audience :: "redis \<Rightarrow> string \<Rightarrow> subscription list" where
  "audience s chnl =
     (if chnl \<in> set (subscribed s)
      then filter (\<lambda>f. closure_channel f = chnl) (listeners s) else [])"

text \<open>The call a filter makes when it lets a value through.\<close>

definition call_of :: "jsval \<Rightarrow> subscription \<Rightarrow> invocation" where
  "call_of v f = \<lparr>via = closure_id f, fn = closure_callback f, arg = v\<rparr>"

section \<open>A codec for concrete runs\<close>

text \<open>
  A codec to run the model on concrete payloads: JSON text for flat objects whose
  values are null, booleans, integers and strings of printable characters without quote
  or backslash. Like \<open>JSON.stringify\<close> it throws a TypeError on a BigInt; it also
  refuses what it cannot write (nested objects, other characters). Reading refuses any
  text that is not of this form with a SyntaxError; of a repeated key the last value
  stays, at the place of the first.
\<close>

definition plain_char :: "char \<Rightarrow> bool" where
  "plain_char c =
     (c \<noteq> CHR 0x22 \<and> c \<noteq> CHR 0x5C \<and> 32 \<le> (of_char c :: nat) \<and> (of_char c :: nat) < 127)"

fun show_nat :: "nat \<Rightarrow> string" where
  "show_nat n =
     (if n < 10 then [''0123456789'' ! n]
      else show_nat (n div 10) @ [''0123456789'' ! (n mod 10)])"

definition show_int :: "int \<Rightarrow> string" where
  "show_int i = (if i < 0 then CHR ''-'' # show_nat (nat (- i)) else show_nat (nat i))"

fun show_value :: "jsval \<Rightarrow> error + string" where
  "show_value JNull = Inr ''null''"
| "show_value (JBool b) = Inr (if b then ''true'' else ''false'')"
| "show_value (JNum i) = Inr (show_int i)"
| "show_value (JStr s) =
     (if list_all plain_char s then Inr ([CHR 0x22] @ s @ [CHR 0x22]) else Inl TypeError)"
| "show_value (JBigInt i) = Inl TypeError"
| "show_value (JObj kvs) = Inl TypeError"

fun show_members :: "jsobj \<Rightarrow> error + string" where
  "show_members [] = Inr []"
| "show_members ((k, v) # kvs) =
     (if \<not> list_all plain_char k then Inl TypeError
      else case show_value v of
             Inl e \<Rightarrow> Inl e
           | Inr t \<Rightarrow>
               (case show_members kvs of
                  Inl e \<Rightarrow> Inl e
                | Inr rest \<Rightarrow>
                    Inr ([CHR 0x22] @ k @ [CHR 0x22] @ '':'' @ t @
                         (if kvs = [] then [] else '','') @ rest)))"

definition flat_stringify :: "jsobj \<Rightarrow> error + string" where
  "flat_stringify data =
     (case show_members data of Inl e \<Rightarrow> Inl e | Inr t \<Rightarrow> Inr (''{'' @ t @ ''}''))"

definition digit :: "char \<Rightarrow> bool" where
  "digit c = (c \<in> set ''0123456789'')"

definition digit_value :: "char \<Rightarrow> nat" where
  "digit_value c = of_char c - 48"

fun read_string :: "string \<Rightarrow> (string \<times> string) option" where
  "read_string [] = None"
| "read_string (c # cs) =
     (if c \<noteq> CHR 0x22 then None
      else case dropWhile plain_char cs of
             [] \<Rightarrow> None
           | d # rest \<Rightarrow>
               if d = CHR 0x22 then Some (takeWhile plain_char cs, rest) else None)"

definition read_nat :: "string \<Rightarrow> (nat \<times> string) option" where
  "read_nat cs =
     (case takeWhile digit cs of
        [] \<Rightarrow> None
      | ds \<Rightarrow> Some (foldl (\<lambda>a c. 10 * a + digit_value c) 0 ds, dropWhile digit cs))"

definition read_value :: "string \<Rightarrow> (jsval \<times> string) option" where
  "read_value cs =
     (if take 4 cs = ''null'' then Some (JNull, drop 4 cs)
      else if take 4 cs = ''true'' then Some (JBool True, drop 4 cs)
      else if take 5 cs = ''false'' then Some (JBool False, drop 5 cs)
      else if take 1 cs = [CHR 0x22]
        then map_option (\<lambda>(s, rest). (JStr s, rest)) (read_string cs)
      else if take 1 cs = ''-''
        then map_option (\<lambda>(n, rest). (JNum (- int n), rest)) (read_nat (drop 1 cs))
      else map_option (\<lambda>(n, rest). (JNum (int n), rest)) (read_nat cs))"

fun read_members :: "nat \<Rightarrow> string \<Rightarrow> jsobj \<Rightarrow> jsobj option" where
  "read_members 0 cs acc = None"
| "read_members (Suc k) cs acc =
     (case read_string cs of
        None \<Rightarrow> None
      | Some (key, r1) \<Rightarrow>
          if take 1 r1 \<noteq> '':'' then None
          else case read_value (drop 1 r1) of
                 None \<Rightarrow> None
               | Some (v, r2) \<Rightarrow>
                   if r2 = ''}'' then Some (AList.update key v acc)
                   else if take 1 r2 = '',''
                     then read_members k (drop 1 r2) (AList.update key v acc)
                   else None)"

definition flat_parse :: "string \<Rightarrow> error + jsval" where
  "flat_parse cs =
     (if cs = ''{}'' then Inr (JObj [])
      else if take 1 cs \<noteq> ''{'' then Inl SyntaxError
      else case read_members (length cs) (drop 1 cs) [] of
             None \<Rightarrow> Inl SyntaxError
           | Some data \<Rightarrow> Inr (JObj data))"

definition flat_json :: codec where
  "flat_json = \<lparr>stringify = flat_stringify, parse = flat_parse\<rparr>"

section \<open>The calls, one by one\<close>

lemma publish_disabled:
  "disabled this \<Longrightarrow> publish J now this channel data = (None, this, data)"
  by (simp add: publish_def)

lemma publish_enabled:
  assumes "\<not> disabled this" and "publisher this = Some p"
    and "serialize J (envelope channel now data) = Inr serial"
  shows "publish J now this channel data =
    (None,
     this\<lparr>publisher := Some (p\<lparr>commands := commands p @
        (if channel = channels_ALL then [PUBLISH channels_ALL serial]
         else [PUBLISH channels_ALL serial, PUBLISH channel serial])\<rparr>)\<rparr>,
     envelope channel now data)"
  using assms by (simp add: publish_def envelope_def redis_publish_def Let_def)

lemma publish_throws:
  assumes "\<not> disabled this" and "serialize J (envelope channel now data) = Inl e"
  shows "publish J now this channel data = (Some e, this, envelope channel now data)"
  using assms by (simp add: publish_def envelope_def Let_def)

lemma issued_append: "issued (Some p) (Some (p\<lparr>commands := commands p @ cs\<rparr>)) = cs"
  by (simp add: issued_def)

lemma issued_same: "issued r r = []"
  by (cases r) (simp_all add: issued_def)

section \<open>The stream, message by message\<close>

lemma emit_eq:
  "emit J fs chnl data =
     (case deserialize J data of
        Inr v \<Rightarrow> (map (call_of v) (filter (\<lambda>f. closure_channel f = chnl) fs), None)
      | Inl e \<Rightarrow> ([], if \<exists>f \<in> set fs. closure_channel f = chnl then Some e else None))"
  by (induction fs) (auto simp: subscription_call_def call_of_def split: sum.splits)

lemma deliver_ok:
  "deserialize J data = Inr v \<Longrightarrow> deliver J s chnl data = (map (call_of v) (audience s chnl), None)"
  by (simp add: deliver_def audience_def emit_eq)

lemma deliver_via:
  assumes "i \<in> set (fst (deliver J s chnl data))"
  shows "\<exists>f \<in> set (audience s chnl). i = call_of (arg i) f \<and> deserialize J data = Inr (arg i)"
  using assms
  by (auto simp: deliver_def audience_def emit_eq call_of_def split: sum.splits if_splits)

lemma dispatch_via:
  assumes "i \<in> set (fst (dispatch J s cs))"
  shows "\<exists>chnl data. PUBLISH chnl data \<in> set cs \<and> i \<in> set (fst (deliver J s chnl data))"
  using assms
proof (induction cs)
  case Nil
  then show ?case by simp
next
  case (Cons c cs)
  show ?case
  proof (cases c)
    case (PUBLISH chnl data)
    obtain a r where d: "deliver J s chnl data = (a, r)"
      by (cases "deliver J s chnl data")
    show ?thesis
    proof (cases "i \<in> set a")
      case True
      then have "i \<in> set (fst (deliver J s chnl data))" by (simp add: d)
      then show ?thesis using PUBLISH by auto
    next
      case False
      with Cons.prems PUBLISH d have "i \<in> set (fst (dispatch J s cs))"
        by (cases r; cases "dispatch J s cs") auto
      from Cons.IH [OF this] show ?thesis by auto
    qed
  next
    case (SUBSCRIBE x)
    with Cons show ?thesis by auto
  next
    case (UNSUBSCRIBE x)
    with Cons show ?thesis by auto
  qed
qed

lemma step_publish_enabled:
  assumes "\<not> disabled this" and "publisher this = Some p" and "subscriber this = Some s"
    and "serialize J (envelope channel now data) = Inr serial"
  shows "step J this (Publish channel data now) =
    (snd (dispatch J s (if channel = channels_ALL then [PUBLISH channels_ALL serial]
         else [PUBLISH channels_ALL serial, PUBLISH channel serial])),
     this\<lparr>publisher := Some (p\<lparr>commands := commands p @
        (if channel = channels_ALL then [PUBLISH channels_ALL serial]
         else [PUBLISH channels_ALL serial, PUBLISH channel serial])\<rparr>)\<rparr>,
     fst (dispatch J s (if channel = channels_ALL then [PUBLISH channels_ALL serial]
         else [PUBLISH channels_ALL serial, PUBLISH channel serial])))"
  using assms
  by (simp add: publish_enabled issued_append split: prod.split)

lemma step_publish_calls:
  assumes "i \<in> set (snd (snd (step J this (Publish channel data now))))"
  shows "\<exists>s chnl serial. subscriber this = Some s \<and>
           serialize J (envelope channel now data) = Inr serial \<and>
           (chnl = channels_ALL \<or> chnl = channel) \<and>
           i \<in> set (fst (deliver J s chnl serial))"
proof (cases "disabled this")
  case True
  with assms show ?thesis by (simp add: publish_disabled issued_same split: option.splits)
next
  case False
  note en = this
  show ?thesis
  proof (cases "serialize J (envelope channel now data)")
    case (Inl e)
    with assms en show ?thesis by (simp add: publish_throws)
  next
    case (Inr serial)
    show ?thesis
    proof (cases "publisher this")
      case None
      with assms en Inr show ?thesis
        by (simp add: publish_def envelope_def Let_def)
    next
      case (Some p)
      show ?thesis
      proof (cases "subscriber this")
        case None
        with assms en Inr Some show ?thesis by (simp add: publish_enabled)
      next
        case (Some s)
        from assms have "i \<in> set (fst (dispatch J s (if channel = channels_ALL then [PUBLISH channels_ALL serial]
         else [PUBLISH channels_ALL serial, PUBLISH channel serial])))"
          by (simp only: step_publish_enabled [OF en \<open>publisher this = Some p\<close> Some Inr] snd_conv)
        from dispatch_via [OF this] obtain chnl m where
          "PUBLISH chnl m \<in> set (if channel = channels_ALL then [PUBLISH channels_ALL serial]
         else [PUBLISH channels_ALL serial, PUBLISH channel serial])"
          "i \<in> set (fst (deliver J s chnl m))" by blast
        then have "(chnl = channels_ALL \<or> chnl = channel) \<and> i \<in> set (fst (deliver J s chnl serial))"
          by (auto split: if_splits)
        with Some Inr show ?thesis by blast
      qed
    qed
  qed
qed

lemma publish_payload:
  "\<not> disabled this \<Longrightarrow> snd (snd (publish J now this channel data)) = envelope channel now data"
  by (simp add: publish_def envelope_def Let_def split: sum.split option.split)

lemma publish_issued:
  assumes "c \<in> set (issued (publisher this) (publisher (fst (snd (publish J now this channel data)))))"
  shows "\<exists>chnl serial. c = PUBLISH chnl serial \<and>
           serialize J (envelope channel now data) = Inr serial"
proof (cases "disabled this")
  case True
  with assms show ?thesis by (simp add: publish_disabled issued_same)
next
  case False
  note en = this
  show ?thesis
  proof (cases "serialize J (envelope channel now data)")
    case (Inl e)
    with assms en show ?thesis by (simp add: publish_throws issued_same)
  next
    case (Inr serial)
    show ?thesis
    proof (cases "publisher this")
      case None
      with assms en Inr show ?thesis
        by (simp add: publish_def envelope_def Let_def issued_same)
    next
      case (Some p)
      with assms en Inr show ?thesis
        by (auto simp: publish_enabled issued_append split: if_splits)
    qed
  qed
qed

lemma step_publish_args:
  assumes "i \<in> set (snd (snd (step J this (Publish channel data now))))"
  shows "round_trip J (envelope channel now data) = Some (arg i)"
proof -
  from step_publish_calls [OF assms] obtain s chnl serial where
    ser: "serialize J (envelope channel now data) = Inr serial"
    and i: "i \<in> set (fst (deliver J s chnl serial))" by blast
  from deliver_via [OF i] have "deserialize J serial = Inr (arg i)" by blast
  with ser show ?thesis by (simp add: round_trip_def)
qed

lemma envelope_fields:
  "map_of (envelope channel now data) ''timestamp'' = Some (JNum now)"
  "map_of (envelope channel now data) ''channel'' = Some (JStr channel)"
  "k \<noteq> ''timestamp'' \<Longrightarrow> k \<noteq> ''channel'' \<Longrightarrow> map_of (envelope channel now data) k = map_of data k"
  by (simp_all add: envelope_def update_conv')

section \<open>Listeners and their identity\<close>

lemma subscribe_enabled:
  assumes "\<not> disabled this" and "subscriber this = Some s"
  shows "subscribe this channel callback =
    (None,
     this\<lparr>subscriber := Some (s\<lparr>commands := commands s @ [SUBSCRIBE channel],
                               subscribed := List.insert channel (subscribed s),
                               listeners := listeners s @
                                 [\<lparr>closure_id = closures this, closure_channel = channel,
                                   closure_callback = callback\<rparr>]\<rparr>),
          closures := Suc (closures this)\<rparr>)"
  using assms by (simp add: subscribe_def redis_subscribe_def on_message_def Let_def)

lemma remove_first_absent: "\<forall>x \<in> set xs. \<not> P x \<Longrightarrow> remove_first P xs = xs"
  by (induction xs) auto

lemma remove_first_distinct:
  "distinct (map g xs) \<Longrightarrow> remove_first (\<lambda>x. g x = k) xs = filter (\<lambda>x. g x \<noteq> k) xs"
proof (induction xs)
  case Nil
  then show ?case by simp
next
  case (Cons x xs)
  show ?case
  proof (cases "g x = k")
    case True
    with Cons.prems have "\<forall>y \<in> set xs. g y \<noteq> k" by (auto simp: image_iff)
    then have "filter (\<lambda>x. g x \<noteq> k) xs = xs" by (simp add: filter_id_conv)
    with True show ?thesis by simp
  next
    case False
    with Cons show ?thesis by simp
  qed
qed

lemma unsubscribe_enabled:
  assumes "\<not> disabled this" and "subscriber this = Some s" and "h \<noteq> NotFunction"
  shows "unsubscribe this channel h =
    (None,
     this\<lparr>subscriber := Some (s\<lparr>commands := commands s @ [UNSUBSCRIBE channel],
                               subscribed := removeAll channel (subscribed s),
                               listeners := rev (remove_first (\<lambda>f. Closure (closure_id f) = h)
                                   (rev (listeners s)))\<rparr>)\<rparr>)"
  using assms by (simp add: unsubscribe_def redis_unsubscribe_def removeListener_def Let_def)

lemma unsubscribe_not_a_function:
  assumes "\<not> disabled this" and "subscriber this = Some s"
  shows "unsubscribe this channel NotFunction =
    (Some TypeError, this\<lparr>subscriber := Some (redis_unsubscribe s channel)\<rparr>)"
  using assms by (simp add: unsubscribe_def removeListener_def Let_def)

lemma removed_unregistered:
  assumes "\<forall>f \<in> set fs. Closure (closure_id f) \<noteq> h"
  shows "rev (remove_first (\<lambda>f. Closure (closure_id f) = h) (rev fs)) = fs"
  using assms by (simp add: remove_first_absent)

lemma removed_registered:
  assumes "distinct (map closure_id fs)"
  shows "rev (remove_first (\<lambda>f. Closure (closure_id f) = Closure k) (rev fs)) =
         filter (\<lambda>f. closure_id f \<noteq> k) fs"
proof -
  have "distinct (map closure_id (rev fs))" using assms by (simp add: rev_map [symmetric])
  then have "remove_first (\<lambda>f. closure_id f = k) (rev fs) = filter (\<lambda>f. closure_id f \<noteq> k) (rev fs)"
    by (rule remove_first_distinct)
  then show ?thesis by (simp add: rev_filter [symmetric])
qed

lemma distinct_same_id:
  "distinct (map g xs) \<Longrightarrow> x \<in> set xs \<Longrightarrow> y \<in> set xs \<Longrightarrow> g x = g y \<Longrightarrow> x = y"
  by (meson distinct_map inj_on_def)

lemma filter_own_id:
  "distinct (map g xs) \<Longrightarrow> x \<in> set xs \<Longrightarrow> filter (\<lambda>y. g y = g x) xs = [x]"
proof (induction xs)
  case Nil
  then show ?case by simp
next
  case (Cons a xs)
  show ?case
  proof (cases "a = x")
    case True
    with Cons.prems have "\<forall>y \<in> set xs. g y \<noteq> g x" by (auto simp: image_iff)
    then have "filter (\<lambda>y. g y = g x) xs = []" by (simp add: filter_empty_conv)
    with True show ?thesis by simp
  next
    case False
    with Cons.prems have "x \<in> set xs" "g a \<noteq> g x" by auto
    with Cons show ?thesis by simp
  qed
qed

lemma consistent_constructor: "consistent constructor"
  by (simp add: consistent_def constructor_def new_Redis_def)

lemma publish_subscriber:
  "subscriber (fst (snd (publish J now this channel data))) = subscriber this"
  by (simp add: publish_def Let_def split: sum.split option.split)

lemma publish_closures:
  "closures (fst (snd (publish J now this channel data))) = closures this"
  by (simp add: publish_def Let_def split: sum.split option.split)

lemma consistent_publish:
  "consistent this \<Longrightarrow> consistent (fst (snd (publish J now this channel data)))"
  by (auto simp: consistent_def publish_subscriber publish_closures split: option.splits)

lemma consistent_subscribe:
  assumes "consistent this"
  shows "consistent (snd (subscribe this channel callback))"
proof (cases "disabled this \<or> subscriber this = None")
  case True
  with assms show ?thesis by (auto simp: subscribe_def)
next
  case False
  then obtain s where s: "subscriber this = Some s" and en: "\<not> disabled this" by auto
  from assms s have "distinct (map closure_id (listeners s))"
    and "\<forall>f \<in> set (listeners s). closure_id f < closures this"
    by (simp_all add: consistent_def)
  then show ?thesis
    by (auto simp: subscribe_enabled [OF en s] consistent_def less_Suc_eq)
qed

lemma set_remove_first: "set (remove_first P xs) \<subseteq> set xs"
  by (induction xs) auto

lemma distinct_remove_first: "distinct (map g xs) \<Longrightarrow> distinct (map g (remove_first P xs))"
proof (induction xs)
  case Nil
  then show ?case by simp
next
  case (Cons x xs)
  then show ?case using set_remove_first [of P xs] by auto
qed

lemma consistent_unsubscribe:
  assumes "consistent this"
  shows "consistent (snd (unsubscribe this channel h))"
proof (cases "disabled this \<or> subscriber this = None")
  case True
  with assms show ?thesis by (auto simp: unsubscribe_def)
next
  case False
  then obtain s where s: "subscriber this = Some s" and en: "\<not> disabled this" by auto
  from assms s have d: "distinct (map closure_id (listeners s))"
    and b: "\<forall>f \<in> set (listeners s). closure_id f < closures this"
    by (simp_all add: consistent_def)
  from d have "distinct (map closure_id (rev (listeners s)))" by (simp add: rev_map [symmetric])
  then have "distinct (map closure_id (remove_first (\<lambda>f. Closure (closure_id f) = h) (rev (listeners s))))"
    by (rule distinct_remove_first)
  then have "distinct (map closure_id (rev (remove_first (\<lambda>f. Closure (closure_id f) = h) (rev (listeners s)))))"
    by (simp add: rev_map [symmetric])
  moreover have "\<forall>f \<in> set (remove_first (\<lambda>f. Closure (closure_id f) = h) (rev (listeners s))).
      closure_id f < closures this"
    using b set_remove_first [of "\<lambda>f. Closure (closure_id f) = h" "rev (listeners s)"] by auto
  ultimately have "h \<noteq> NotFunction \<Longrightarrow> ?thesis"
    by (simp add: unsubscribe_enabled [OF en s] consistent_def)
  moreover have "h = NotFunction \<Longrightarrow> ?thesis"
    using d b by (simp add: unsubscribe_not_a_function [OF en s] consistent_def redis_unsubscribe_def)
  ultimately show ?thesis by blast
qed

lemma consistent_step: "consistent this \<Longrightarrow> consistent (fst (snd (step J this q)))"
proof (cases q)
  case (Publish c d n)
  assume "consistent this"
  then have "consistent (fst (snd (publish J n this c d)))" by (rule consistent_publish)
  then show ?thesis using Publish
    by (cases "publish J n this c d") (auto split: option.splits prod.splits)
next
  case (Subscribe c cb)
  assume "consistent this"
  then have "consistent (snd (subscribe this c cb))" by (rule consistent_subscribe)
  then show ?thesis using Subscribe by (cases "subscribe this c cb") auto
next
  case (Unsubscribe c h)
  assume "consistent this"
  then have "consistent (snd (unsubscribe this c h))" by (rule consistent_unsubscribe)
  then show ?thesis using Unsubscribe by (cases "unsubscribe this c h") auto
next
  case Enable
  assume "consistent this"
  then show ?thesis using Enable by (auto simp: consistent_def enable_def split: option.splits)
next
  case Disable
  assume "consistent this"
  then show ?thesis using Disable by (auto simp: consistent_def disable_def split: option.splits)
qed

lemma consistent_run: "consistent this \<Longrightarrow> consistent (fst (snd (run J this qs)))"
proof (induction qs arbitrary: this)
  case Nil
  then show ?case by simp
next
  case (Cons q qs)
  from Cons.prems have c: "consistent (fst (snd (step J this q)))" by (rule consistent_step)
  obtain r this' invs where st: "step J this q = (r, this', invs)"
    by (cases "step J this q") auto
  with c have c': "consistent this'" by simp
  show ?case
  proof (cases r)
    case None
    from Cons.IH [OF c'] show ?thesis using st None
      by (cases "run J this' qs") auto
  next
    case (Some e)
    with st c' show ?thesis by simp
  qed
qed

text \<open>
  What every instance that a script of calls reaches from the constructor satisfies: its
  filters are distinct function objects created by \<open>subscribe\<close>, and both clients
  exist.
\<close>

lemma clients_publish:
  assumes "publisher this \<noteq> None" and "subscriber this \<noteq> None"
  shows "publisher (fst (snd (publish J now this channel data))) \<noteq> None \<and>
         subscriber (fst (snd (publish J now this channel data))) \<noteq> None"
  using assms by (auto simp: publish_def Let_def split: sum.split option.split)

lemma clients_step:
  assumes "publisher this \<noteq> None" and "subscriber this \<noteq> None"
  shows "publisher (fst (snd (step J this q))) \<noteq> None \<and>
         subscriber (fst (snd (step J this q))) \<noteq> None"
proof (cases q)
  case (Publish c d n)
  from clients_publish [OF assms, of J n c d] show ?thesis using Publish
    by (cases "publish J n this c d") (auto split: option.splits prod.splits)
next
  case (Subscribe c cb)
  with assms show ?thesis
    by (auto simp: subscribe_def Let_def)
next
  case (Unsubscribe c h)
  with assms show ?thesis
    by (auto simp: unsubscribe_def Let_def split: sum.splits)
next
  case Enable
  with assms show ?thesis by (simp add: enable_def)
next
  case Disable
  with assms show ?thesis by (simp add: disable_def)
qed

lemma clients_run:
  assumes "publisher this \<noteq> None" and "subscriber this \<noteq> None"
  shows "publisher (fst (snd (run J this qs))) \<noteq> None \<and>
         subscriber (fst (snd (run J this qs))) \<noteq> None"
  using assms
proof (induction qs arbitrary: this)
  case Nil
  then show ?case by simp
next
  case (Cons q qs)
  obtain r this' invs where st: "step J this q = (r, this', invs)"
    by (cases "step J this q") auto
  with clients_step [OF Cons.prems, of J q]
  have c: "publisher this' \<noteq> None" "subscriber this' \<noteq> None" by simp_all
  show ?case
  proof (cases r)
    case None
    from Cons.IH [OF c] show ?thesis using st None
      by (cases "run J this' qs") auto
  next
    case (Some e)
    with st c show ?thesis by simp
  qed
qed

lemma reachable_consistent: "consistent (fst (snd (run J constructor qs)))"
  by (rule consistent_run [OF consistent_constructor])

lemma reachable_clients:
  "publisher (fst (snd (run J constructor qs))) \<noteq> None \<and>
   subscriber (fst (snd (run J constructor qs))) \<noteq> None"
  by (rule clients_run) (simp_all add: constructor_def)

lemma audience_listener: "f \<in> set (audience s chnl) \<Longrightarrow>
  f \<in> set (listeners s) \<and> closure_channel f = chnl \<and> chnl \<in> set (subscribed s)"
  by (auto simp: audience_def split: if_splits)

lemma deliver_filter:
  assumes "i \<in> set (fst (deliver J s chnl data))"
  shows "\<exists>f \<in> set (listeners s). closure_channel f = chnl \<and> chnl \<in> set (subscribed s) \<and>
           via i = closure_id f \<and> fn i = closure_callback f \<and> deserialize J data = Inr (arg i)"
proof -
  from deliver_via [OF assms] obtain f where
    f: "f \<in> set (audience s chnl)" and i: "i = call_of (arg i) f"
    and d: "deserialize J data = Inr (arg i)" by blast
  from i have "via i = closure_id f" "fn i = closure_callback f"
    by (metis call_of_def invocation.select_convs(1), metis call_of_def invocation.select_convs(2))
  with audience_listener [OF f] d show ?thesis by blast
qed

lemma step_publish_ok:
  assumes "\<not> disabled this" and "publisher this = Some p" and "subscriber this = Some s"
    and "round_trip J (envelope channel now data) = Some v"
  shows "\<exists>p'. step J this (Publish channel data now) =
    (None, this\<lparr>publisher := Some p'\<rparr>,
     map (call_of v) ((if channel = channels_ALL then [] else audience s channels_ALL) @
                      audience s channel))"
proof -
  from assms(4) obtain serial where
    ser: "serialize J (envelope channel now data) = Inr serial"
    and de: "deserialize J serial = Inr v"
    by (auto simp: round_trip_def split: sum.splits)
  note st = step_publish_enabled [OF assms(1-3) ser]
  show ?thesis
    unfolding st by (cases "channel = channels_ALL") (auto simp: deliver_ok [OF de])
qed

lemma via_call_of: "via (call_of v f) = closure_id f"
  by (simp add: call_of_def)

lemma calls_through:
  "filter (\<lambda>i. via i = k) (map (call_of v) fs) =
   map (call_of v) (filter (\<lambda>g. closure_id g = k) fs)"
  by (induction fs) (simp_all add: via_call_of)

lemma audience_of_listener:
  assumes "distinct (map closure_id (listeners s))" and "f \<in> set (listeners s)"
  shows "filter (\<lambda>g. closure_id g = closure_id f) (audience s chnl) =
         (if chnl \<in> set (subscribed s) \<and> closure_channel f = chnl then [f] else [])"
proof -
  have "filter (\<lambda>g. closure_id g = closure_id f) (filter (\<lambda>g. closure_channel g = chnl) (listeners s)) =
        filter (\<lambda>g. closure_channel g = chnl) (filter (\<lambda>g. closure_id g = closure_id f) (listeners s))"
    by (simp add: conj_commute)
  also have "\<dots> = filter (\<lambda>g. closure_channel g = chnl) [f]"
    by (simp only: filter_own_id [OF assms])
  finally show ?thesis by (simp add: audience_def)
qed

lemma publish_calls_listener:
  assumes "\<not> disabled this" and "publisher this = Some p" and "subscriber this = Some s"
    and "distinct (map closure_id (listeners s))" and "f \<in> set (listeners s)"
    and "closure_channel f \<in> set (subscribed s)"
    and "round_trip J (envelope (closure_channel f) now data) = Some v"
  shows "\<exists>p' invs. step J this (Publish (closure_channel f) data now) =
           (None, this\<lparr>publisher := Some p'\<rparr>, invs) \<and>
           filter (\<lambda>i. via i = closure_id f) invs = [call_of v f]"
proof -
  from step_publish_ok [OF assms(1-3,7)] obtain p' where
    st: "step J this (Publish (closure_channel f) data now) =
      (None, this\<lparr>publisher := Some p'\<rparr>,
       map (call_of v) ((if closure_channel f = channels_ALL then [] else audience s channels_ALL) @
                        audience s (closure_channel f)))" by blast
  have "filter (\<lambda>i. via i = closure_id f)
      (map (call_of v) ((if closure_channel f = channels_ALL then [] else audience s channels_ALL) @
                        audience s (closure_channel f))) = [call_of v f]"
    using assms(6)
    by (simp add: calls_through audience_of_listener [OF assms(4,5)])
  with st show ?thesis by blast
qed

lemma run_publish_multiplicity:
  assumes "\<not> disabled this" and "publisher this = Some p" and "subscriber this = Some s"
    and "distinct (map closure_id (listeners s))" and "f \<in> set (listeners s)"
    and "closure_channel f \<in> set (subscribed s)"
    and "\<forall>(d, n) \<in> set ps. round_trip J (envelope (closure_channel f) n d) \<noteq> None"
  shows "fst (run J this (map (\<lambda>(d, n). Publish (closure_channel f) d n) ps)) = None \<and>
         filter (\<lambda>i. via i = closure_id f)
           (snd (snd (run J this (map (\<lambda>(d, n). Publish (closure_channel f) d n) ps)))) =
         map (\<lambda>(d, n). call_of (the (round_trip J (envelope (closure_channel f) n d))) f) ps"
  using assms(1,2,3,7)
proof (induction ps arbitrary: this p)
  case Nil
  then show ?case by simp
next
  case (Cons a ps)
  obtain d n where a: "a = (d, n)" by (cases a)
  with Cons.prems(4) obtain v where v: "round_trip J (envelope (closure_channel f) n d) = Some v"
    by auto
  from publish_calls_listener [OF Cons.prems(1-3) assms(4-6) v] obtain p' invs where
    st: "step J this (Publish (closure_channel f) d n) = (None, this\<lparr>publisher := Some p'\<rparr>, invs)"
    and one: "filter (\<lambda>i. via i = closure_id f) invs = [call_of v f]" by blast
  let ?t = "this\<lparr>publisher := Some p'\<rparr>"
  have "\<not> disabled ?t" "publisher ?t = Some p'" "subscriber ?t = Some s"
    using Cons.prems by simp_all
  moreover have "\<forall>(d, n) \<in> set ps. round_trip J (envelope (closure_channel f) n d) \<noteq> None"
    using Cons.prems(4) by simp
  ultimately have ih:
    "fst (run J ?t (map (\<lambda>(d, n). Publish (closure_channel f) d n) ps)) = None \<and>
     filter (\<lambda>i. via i = closure_id f)
       (snd (snd (run J ?t (map (\<lambda>(d, n). Publish (closure_channel f) d n) ps)))) =
     map (\<lambda>(d, n). call_of (the (round_trip J (envelope (closure_channel f) n d))) f) ps"
    by (rule Cons.IH)
  obtain r t' js where rn: "run J ?t (map (\<lambda>(d, n). Publish (closure_channel f) d n) ps) = (r, t', js)"
    by (cases "run J ?t (map (\<lambda>(d, n). Publish (closure_channel f) d n) ps)") auto
  with ih st one v a show ?case by simp
qed

lemma step_publish_subscriber:
  "subscriber (fst (snd (step J this (Publish channel data now)))) = subscriber this"
proof -
  obtain r t d where p: "publish J now this channel data = (r, t, d)"
    by (cases "publish J now this channel data") auto
  with publish_subscriber [of J now this channel data] have "subscriber t = subscriber this"
    by simp
  with p show ?thesis by (cases r) (auto split: option.splits prod.splits)
qed

lemma run_publish_calls:
  assumes "i \<in> set (snd (snd (run J this (map (\<lambda>(d, n). Publish X d n) ps))))"
  shows "\<exists>s chnl serial. subscriber this = Some s \<and> i \<in> set (fst (deliver J s chnl serial))"
  using assms
proof (induction ps arbitrary: this)
  case Nil
  then show ?case by simp
next
  case (Cons a ps)
  obtain d n where a: "a = (d, n)" by (cases a)
  obtain r t invs where st: "step J this (Publish X d n) = (r, t, invs)"
    by (cases "step J this (Publish X d n)") auto
  from st step_publish_subscriber [of J this X d n] have same: "subscriber t = subscriber this"
    by simp
  show ?case
  proof (cases "i \<in> set invs")
    case True
    with st have "i \<in> set (snd (snd (step J this (Publish X d n))))" by simp
    from step_publish_calls [OF this] show ?thesis by blast
  next
    case False
    with Cons.prems a st have "i \<in> set (snd (snd (run J t (map (\<lambda>(d, n). Publish X d n) ps))))"
      by (cases r; cases "run J t (map (\<lambda>(d, n). Publish X d n) ps)") auto
    from Cons.IH [OF this] same show ?thesis by simp
  qed
qed

lemma deliver_unsubscribed: "chnl \<notin> set (subscribed s) \<Longrightarrow> deliver J s chnl data = ([], None)"
  by (simp add: deliver_def)

lemma deliver_other_channel:
  assumes "Y \<noteq> X" and "Y \<in> set (subscribed s') \<longleftrightarrow> Y \<in> set (subscribed s)"
    and "filter (\<lambda>g. closure_channel g = Y) (listeners s') =
         filter (\<lambda>g. closure_channel g = Y) (listeners s)"
  shows "deliver J s' Y data = deliver J s Y data"
proof -
  from assms(3) have "set (filter (\<lambda>g. closure_channel g = Y) (listeners s')) =
      set (filter (\<lambda>g. closure_channel g = Y) (listeners s))" by simp
  then have "(\<exists>f \<in> set (listeners s'). closure_channel f = Y) \<longleftrightarrow>
      (\<exists>f \<in> set (listeners s). closure_channel f = Y)" by auto
  with assms show ?thesis
    by (simp add: deliver_def emit_eq split: sum.split)
qed

lemma the_subscriber_update: "the (subscriber (snd (r, t\<lparr>subscriber := Some s\<rparr>))) = s"
  by simp

text \<open>
  Scripts of calls: a property that every call of a script keeps, and that rules out a
  call of a callback wherever it holds, rules the call out for the whole script.
\<close>

lemma publish_closures_step:
  "closures (fst (snd (step J this (Publish channel data now)))) = closures this"
proof -
  obtain r t d where p: "publish J now this channel data = (r, t, d)"
    by (cases "publish J now this channel data") auto
  with publish_closures [of J now this channel data] have "closures t = closures this"
    by simp
  with p show ?thesis by (cases r) (auto split: option.splits prod.splits)
qed

lemma step_effect:
  "(subscriber (fst (snd (step J t q))) = subscriber t \<and>
    closures (fst (snd (step J t q))) = closures t) \<or>
   (\<exists>s c cb. q = Subscribe c cb \<and> subscriber t = Some s \<and>
      subscriber (fst (snd (step J t q))) =
        Some (s\<lparr>commands := commands s @ [SUBSCRIBE c],
                subscribed := List.insert c (subscribed s),
                listeners := listeners s @
                  [\<lparr>closure_id = closures t, closure_channel = c, closure_callback = cb\<rparr>]\<rparr>) \<and>
      closures (fst (snd (step J t q))) = Suc (closures t)) \<or>
   (\<exists>s s' c h. q = Unsubscribe c h \<and> subscriber t = Some s \<and>
      subscriber (fst (snd (step J t q))) = Some s' \<and>
      set (listeners s') \<subseteq> set (listeners s) \<and>
      set (subscribed s') \<subseteq> set (subscribed s) \<and>
      closures (fst (snd (step J t q))) = closures t)"
proof (cases q)
  case (Publish c d n)
  then show ?thesis by (simp only: step_publish_subscriber publish_closures_step) simp
next
  case (Subscribe c cb)
  show ?thesis
  proof (cases "disabled t \<or> subscriber t = None")
    case True
    with Subscribe show ?thesis by (auto simp: subscribe_def)
  next
    case False
    then obtain s where s: "subscriber t = Some s" and en: "\<not> disabled t" by auto
    with Subscribe show ?thesis by (simp add: subscribe_enabled [OF en s])
  qed
next
  case (Unsubscribe c h)
  show ?thesis
  proof (cases "disabled t \<or> subscriber t = None")
    case True
    with Unsubscribe show ?thesis by (auto simp: unsubscribe_def)
  next
    case False
    then obtain s where s: "subscriber t = Some s" and en: "\<not> disabled t" by auto
    show ?thesis
    proof (cases "h = NotFunction")
      case True
      with Unsubscribe s show ?thesis
        by (auto simp: unsubscribe_not_a_function [OF en s] redis_unsubscribe_def)
    next
      case False
      have "set (rev (remove_first (\<lambda>f. Closure (closure_id f) = h) (rev (listeners s))))
            \<subseteq> set (listeners s)"
        using set_remove_first [of "\<lambda>f. Closure (closure_id f) = h" "rev (listeners s)"] by simp
      with Unsubscribe s show ?thesis
        by (auto simp: unsubscribe_enabled [OF en s False])
    qed
  qed
next
  case Enable
  then show ?thesis by (simp add: enable_def)
next
  case Disable
  then show ?thesis by (simp add: disable_def)
qed

lemma step_calls:
  assumes "i \<in> set (snd (snd (step J this q)))"
  shows "\<exists>s chnl serial. subscriber this = Some s \<and> i \<in> set (fst (deliver J s chnl serial))"
proof (cases q)
  case (Publish c d n)
  with assms have "i \<in> set (snd (snd (step J this (Publish c d n))))" by simp
  from step_publish_calls [OF this] show ?thesis by blast
next
  case (Subscribe c cb)
  with assms show ?thesis by (cases "subscribe this c cb") auto
next
  case (Unsubscribe c h)
  with assms show ?thesis by (cases "unsubscribe this c h") auto
next
  case Enable
  with assms show ?thesis by simp
next
  case Disable
  with assms show ?thesis by simp
qed

lemma run_calls_invariant:
  assumes "I this"
    and "\<And>t q. I t \<Longrightarrow> q \<in> set qs \<Longrightarrow> I (fst (snd (step J t q)))"
    and "\<And>t s chnl serial. I t \<Longrightarrow> subscriber t = Some s \<Longrightarrow>
           i \<in> set (fst (deliver J s chnl serial)) \<Longrightarrow> False"
    and "i \<in> set (snd (snd (run J this qs)))"
  shows False
  using assms(1,2,4)
proof (induction qs arbitrary: this)
  case Nil
  then show ?case by simp
next
  case (Cons q qs)
  obtain r t invs where st: "step J this q = (r, t, invs)"
    by (cases "step J this q") auto
  show ?case
  proof (cases "i \<in> set invs")
    case True
    with st have "i \<in> set (snd (snd (step J this q)))" by simp
    from step_calls [OF this] obtain s chnl serial where
      "subscriber this = Some s" "i \<in> set (fst (deliver J s chnl serial))" by blast
    with assms(3) [OF Cons.prems(1)] show False by blast
  next
    case False
    from Cons.prems(2) [OF Cons.prems(1), of q] st have it: "I t" by simp
    from False Cons.prems(3) st have "i \<in> set (snd (snd (run J t qs)))"
      by (cases r; cases "run J t qs") auto
    with Cons.IH [OF it] Cons.prems(2) show False by simp
  qed
qed

lemma removed_filter_never_called:
  assumes "k < closures this"
    and "\<forall>s. subscriber this = Some s \<longrightarrow> (\<forall>h \<in> set (listeners s). closure_id h \<noteq> k)"
    and "i \<in> set (snd (snd (run J this qs)))"
  shows "via i \<noteq> k"
proof
  assume eq: "via i = k"
  let ?I = "\<lambda>t. k < closures t \<and>
     (\<forall>s. subscriber t = Some s \<longrightarrow> (\<forall>h \<in> set (listeners s). closure_id h \<noteq> k))"
  have "?I this" using assms(1,2) by simp
  moreover have "?I (fst (snd (step J t q)))" if "?I t" for t q
    using step_effect [of J t q] that by (elim disjE exE conjE) auto
  moreover have False
    if "?I t" and "subscriber t = Some s" and "i \<in> set (fst (deliver J s chnl serial))"
    for t s chnl serial
  proof -
    from deliver_filter [OF that(3)] obtain h where
      "h \<in> set (listeners s)" "via i = closure_id h" by blast
    with that(1,2) eq show False by auto
  qed
  ultimately show False using assms(3)
    by (rule run_calls_invariant [where I = ?I])
qed

lemma channel_silent_until_subscribed:
  assumes "k < closures this"
    and "\<forall>s. subscriber this = Some s \<longrightarrow> X \<notin> set (subscribed s) \<and>
           (\<forall>h \<in> set (listeners s). closure_id h = k \<longrightarrow> closure_channel h = X)"
    and "\<forall>q \<in> set qs. \<forall>cb. q \<noteq> Subscribe X cb"
    and "i \<in> set (snd (snd (run J this qs)))"
  shows "via i \<noteq> k"
proof
  assume eq: "via i = k"
  let ?I = "\<lambda>t. k < closures t \<and>
     (\<forall>s. subscriber t = Some s \<longrightarrow> X \<notin> set (subscribed s) \<and>
           (\<forall>h \<in> set (listeners s). closure_id h = k \<longrightarrow> closure_channel h = X))"
  have "?I this" using assms(1,2) by simp
  moreover have "?I (fst (snd (step J t q)))" if "?I t" and "q \<in> set qs" for t q
  proof -
    from assms(3) that(2) have no: "\<forall>cb. q \<noteq> Subscribe X cb" by blast
    from step_effect [of J t q] that(1) no show ?thesis
      by (elim disjE exE conjE) auto
  qed
  moreover have False
    if "?I t" and "subscriber t = Some s" and "i \<in> set (fst (deliver J s chnl serial))"
    for t s chnl serial
  proof -
    from deliver_filter [OF that(3)] obtain h where
      "h \<in> set (listeners s)" "closure_channel h = chnl" "chnl \<in> set (subscribed s)"
      "via i = closure_id h" by blast
    with that(1,2) eq show False by auto
  qed
  ultimately show False using assms(4)
    by (rule run_calls_invariant [where I = ?I])
qed

lemma resubscribe_revives:
  assumes "consistent t" and "\<not> disabled t" and "publisher t = Some p"
    and "subscriber t = Some s" and "g \<in> set (listeners s)" and "closure_channel g = X"
    and "round_trip J (envelope X n d) = Some v"
  shows "filter (\<lambda>i. via i = closure_id g)
           (snd (snd (step J (snd (subscribe t X cb)) (Publish X d n)))) = [call_of v g]"
proof -
  let ?s = "s\<lparr>commands := commands s @ [SUBSCRIBE X],
              subscribed := List.insert X (subscribed s),
              listeners := listeners s @
                [\<lparr>closure_id = closures t, closure_channel = X, closure_callback = cb\<rparr>]\<rparr>"
  let ?t = "t\<lparr>subscriber := Some ?s, closures := Suc (closures t)\<rparr>"
  have sub: "snd (subscribe t X cb) = ?t"
    by (simp add: subscribe_enabled [OF assms(2,4)])
  from consistent_subscribe [OF assms(1), of X cb] have "distinct (map closure_id (listeners ?s))"
    by (simp add: sub consistent_def)
  moreover have "\<not> disabled ?t" "publisher ?t = Some p" "subscriber ?t = Some ?s"
    using assms(2,3) by simp_all
  moreover have "g \<in> set (listeners ?s)" "closure_channel g \<in> set (subscribed ?s)"
    using assms(5,6) by simp_all
  moreover have "round_trip J (envelope (closure_channel g) n d) = Some v"
    using assms(6,7) by simp
  ultimately obtain p' invs where
    "step J ?t (Publish (closure_channel g) d n) = (None, ?t\<lparr>publisher := Some p'\<rparr>, invs)"
    "filter (\<lambda>i. via i = closure_id g) invs = [call_of v g]"
    using publish_calls_listener [of ?t p ?s g J n d v] by blast
  then show ?thesis by (simp add: sub assms(6))
qed

section \<open>The disabled instance\<close>

text \<open>
  Claim C5. While the disabled flag is set, \<open>publish\<close>, \<open>subscribe\<close> and
  \<open>unsubscribe\<close> return without throwing and change nothing: the instance with both
  its clients (their command logs, channel sets and listeners) is returned as it was, the
  payload object is returned without the stamped fields, and no callback is called.
\<close>

theorem disabled_no_op:
  assumes "disabled this"
  shows "publish J now this channel data = (None, this, data) \<and>
         subscribe this channel callback = (None, this) \<and>
         unsubscribe this channel h = (None, this) \<and>
         step J this (Publish channel data now) = (None, this, []) \<and>
         step J this (Subscribe channel callback) = (None, this, []) \<and>
         step J this (Unsubscribe channel h) = (None, this, [])"
  using assms
  by (simp add: publish_def subscribe_def unsubscribe_def issued_same split: option.split)

text \<open>
  The instance with one subscriber on channel A, then disabled: the same publication
  that calls the subscriber once on the enabled instance does nothing.
\<close>

theorem disabled_no_op_witness:
  "disabled (disable (snd (subscribe constructor ''A'' 7))) \<and>
   publish flat_json 1000 (disable (snd (subscribe constructor ''A'' 7))) ''A'' [(''id'', JNum 1)] =
     (None, disable (snd (subscribe constructor ''A'' 7)), [(''id'', JNum 1)]) \<and>
   step flat_json (disable (snd (subscribe constructor ''A'' 7)))
       (Publish ''A'' [(''id'', JNum 1)] 1000) =
     (None, disable (snd (subscribe constructor ''A'' 7)), []) \<and>
   subscribe (disable (snd (subscribe constructor ''A'' 7))) ''A'' 8 =
     (None, disable (snd (subscribe constructor ''A'' 7))) \<and>
   unsubscribe (disable (snd (subscribe constructor ''A'' 7))) ''A'' (Closure 0) =
     (None, disable (snd (subscribe constructor ''A'' 7))) \<and>
   snd (snd (step flat_json (snd (subscribe constructor ''A'' 7))
       (Publish ''A'' [(''id'', JNum 1)] 1000))) =
     [\<lparr>via = 0, fn = 7,
       arg = JObj [(''id'', JNum 1), (''timestamp'', JNum 1000), (''channel'', JStr ''A'')]\<rparr>]"
proof -
  have h: "disabled (disable (snd (subscribe constructor ''A'' 7)))"
    by (simp add: disable_def)
  have live:
    "snd (snd (step flat_json (snd (subscribe constructor ''A'' 7))
       (Publish ''A'' [(''id'', JNum 1)] 1000))) =
     [\<lparr>via = 0, fn = 7,
       arg = JObj [(''id'', JNum 1), (''timestamp'', JNum 1000), (''channel'', JStr ''A'')]\<rparr>]"
    by code_simp
  show ?thesis
    using h live
      disabled_no_op [OF h, of flat_json 1000 "''A''" "[(''id'', JNum 1)]" 8 "Closure 0"]
    by blast
qed

section \<open>Construction\<close>

text \<open>
  Claim C8, as the code has it. The constructor takes no argument and sets the disabled
  flag to false before it tests it, so every instance is constructed enabled, with both
  Redis clients created; the branch that would leave the clients out is never taken. An
  instance becomes disabled only by a later call of \<open>disable\<close>, with both clients
  still there.
\<close>

theorem constructor_enabled:
  "constructor =
     \<lparr>disabled = False, publisher = Some new_Redis, subscriber = Some new_Redis, closures = 0\<rparr> \<and>
   disabled (disable constructor) \<and>
   publisher (disable constructor) = Some new_Redis \<and>
   subscriber (disable constructor) = Some new_Redis"
  by (simp add: constructor_def disable_def)

text \<open>
  Claim C8 as stated asks for a construction that yields a disabled instance. There is
  one construction, and its instance is not disabled.
\<close>

theorem constructor_never_disabled: "\<not> disabled constructor"
  by (simp add: constructor_def)

section \<open>Publishing\<close>

text \<open>
  Claim C1. An enabled \<open>publish\<close> whose envelope serializes issues, on the publisher
  client and on no other, exactly two PUBLISH commands when the channel is not "all":
  the first on "all", the second on the channel; when the channel is "all" it issues
  exactly one, on "all". It returns normally.
\<close>

theorem publish_order:
  assumes "\<not> disabled this" and "publisher this = Some p"
    and "serialize J (envelope channel now data) = Inr serial"
  shows "fst (publish J now this channel data) = None \<and>
         issued (publisher this) (publisher (fst (snd (publish J now this channel data)))) =
           (if channel = channels_ALL then [PUBLISH channels_ALL serial]
            else [PUBLISH channels_ALL serial, PUBLISH channel serial]) \<and>
         subscriber (fst (snd (publish J now this channel data))) = subscriber this"
  using assms by (simp add: publish_enabled issued_append)

text \<open>
  The payload of the test suite on channel A and on channel "all", published on a fresh
  instance.
\<close>

theorem publish_order_witness:
  \<open>\<not> disabled constructor \<and> publisher constructor = Some new_Redis \<and>
   serialize flat_json (envelope ''A'' 1000 [(''text'', JStr ''hello world'')]) =
     Inr ''{"text":"hello world","timestamp":1000,"channel":"A"}'' \<and>
   serialize flat_json (envelope ''all'' 1000 [(''text'', JStr ''hello world'')]) =
     Inr ''{"text":"hello world","timestamp":1000,"channel":"all"}'' \<and>
   issued (publisher constructor)
     (publisher (fst (snd (publish flat_json 1000 constructor ''A'' [(''text'', JStr ''hello world'')])))) =
     [PUBLISH ''all'' ''{"text":"hello world","timestamp":1000,"channel":"A"}'',
      PUBLISH ''A'' ''{"text":"hello world","timestamp":1000,"channel":"A"}''] \<and>
   issued (publisher constructor)
     (publisher (fst (snd (publish flat_json 1000 constructor ''all'' [(''text'', JStr ''hello world'')])))) =
     [PUBLISH ''all'' ''{"text":"hello world","timestamp":1000,"channel":"all"}'']\<close>
proof -
  have h1: "\<not> disabled constructor" by code_simp
  have h2: "publisher constructor = Some new_Redis" by code_simp
  have h3: \<open>serialize flat_json (envelope ''A'' 1000 [(''text'', JStr ''hello world'')]) =
     Inr ''{"text":"hello world","timestamp":1000,"channel":"A"}''\<close> by code_simp
  have h4: \<open>serialize flat_json (envelope ''all'' 1000 [(''text'', JStr ''hello world'')]) =
     Inr ''{"text":"hello world","timestamp":1000,"channel":"all"}''\<close> by code_simp
  show ?thesis
    using h1 h2 h3 h4 publish_order [OF h1 h2 h3] publish_order [OF h1 h2 h4]
    by (simp add: channels_ALL_def)
qed

text \<open>
  Claim C9. When the codec throws on the payload object (as \<open>publish\<close> hands it over:
  with the two fields assigned), \<open>publish\<close> throws the same error at once, the
  instance is as before, no command is issued on the publisher client, and nothing is
  delivered.
\<close>

theorem serialization_failure:
  assumes "\<not> disabled this" and "serialize J (envelope channel now data) = Inl e"
  shows "publish J now this channel data = (Some e, this, envelope channel now data) \<and>
         issued (publisher this) (publisher (fst (snd (publish J now this channel data)))) = [] \<and>
         step J this (Publish channel data now) = (Some e, this, [])"
  using assms by (simp add: publish_throws issued_same)

text \<open>A payload with a BigInt field, which the codec refuses.\<close>

theorem serialization_failure_witness:
  "\<not> disabled constructor \<and>
   serialize flat_json (envelope ''A'' 1000 [(''id'', JBigInt 1)]) = Inl TypeError \<and>
   publish flat_json 1000 constructor ''A'' [(''id'', JBigInt 1)] =
     (Some TypeError, constructor, envelope ''A'' 1000 [(''id'', JBigInt 1)]) \<and>
   issued (publisher constructor)
     (publisher (fst (snd (publish flat_json 1000 constructor ''A'' [(''id'', JBigInt 1)])))) = [] \<and>
   step flat_json constructor (Publish ''A'' [(''id'', JBigInt 1)] 1000) =
     (Some TypeError, constructor, [])"
proof -
  have h1: "\<not> disabled constructor" by code_simp
  have h2: "serialize flat_json (envelope ''A'' 1000 [(''id'', JBigInt 1)]) = Inl TypeError"
    by code_simp
  show ?thesis
    using h1 h2 serialization_failure [OF h1 h2] by blast
qed

text \<open>
  Claim C6. Every enabled \<open>publish\<close> leaves the caller's payload object with the
  field \<open>timestamp\<close> set to the clock reading and the field \<open>channel\<close> set to the
  target channel, whatever these fields held before, and with every other field as it
  was; this also holds when the call throws afterwards. The fields are assigned before
  serialization: every command the call issues carries the serialization of the stamped
  object. Every callback that is called because of the publication is handed what the
  codec returns for the stamped object, so where the codec gives the object back, the
  listener receives both fields.
\<close>

theorem payload_stamped:
  assumes "\<not> disabled this"
  shows "snd (snd (publish J now this channel data)) = envelope channel now data \<and>
     map_of (envelope channel now data) ''timestamp'' = Some (JNum now) \<and>
     map_of (envelope channel now data) ''channel'' = Some (JStr channel) \<and>
     (\<forall>k. k \<noteq> ''timestamp'' \<longrightarrow> k \<noteq> ''channel'' \<longrightarrow>
        map_of (envelope channel now data) k = map_of data k) \<and>
     (\<forall>c \<in> set (issued (publisher this) (publisher (fst (snd (publish J now this channel data))))).
        \<exists>chnl serial. c = PUBLISH chnl serial \<and>
          serialize J (envelope channel now data) = Inr serial) \<and>
     (\<forall>i \<in> set (snd (snd (step J this (Publish channel data now)))).
        round_trip J (envelope channel now data) = Some (arg i)) \<and>
     (round_trip J (envelope channel now data) = Some (JObj (envelope channel now data)) \<longrightarrow>
        (\<forall>i \<in> set (snd (snd (step J this (Publish channel data now)))).
           arg i = JObj (envelope channel now data)))"
proof (intro conjI)
  show "snd (snd (publish J now this channel data)) = envelope channel now data"
    using assms by (rule publish_payload)
  show "\<forall>c \<in> set (issued (publisher this) (publisher (fst (snd (publish J now this channel data))))).
        \<exists>chnl serial. c = PUBLISH chnl serial \<and>
          serialize J (envelope channel now data) = Inr serial"
    using publish_issued by blast
  show calls: "\<forall>i \<in> set (snd (snd (step J this (Publish channel data now)))).
        round_trip J (envelope channel now data) = Some (arg i)"
    using step_publish_args by blast
  show "round_trip J (envelope channel now data) = Some (JObj (envelope channel now data)) \<longrightarrow>
        (\<forall>i \<in> set (snd (snd (step J this (Publish channel data now)))).
           arg i = JObj (envelope channel now data))"
    using calls by auto
qed (simp_all add: envelope_fields)

text \<open>
  A payload that already has a \<open>timestamp\<close> field, published on channel A with one
  subscriber: the field is overwritten in its place, the channel is added at the end,
  and the subscriber receives both.
\<close>

theorem payload_stamped_witness:
  "\<not> disabled (snd (subscribe constructor ''A'' 7)) \<and>
   snd (snd (publish flat_json 1000 (snd (subscribe constructor ''A'' 7)) ''A''
       [(''timestamp'', JStr ''never''), (''text'', JStr ''hello world'')])) =
     [(''timestamp'', JNum 1000), (''text'', JStr ''hello world''), (''channel'', JStr ''A'')] \<and>
   envelope ''A'' 1000 [(''timestamp'', JStr ''never''), (''text'', JStr ''hello world'')] =
     [(''timestamp'', JNum 1000), (''text'', JStr ''hello world''), (''channel'', JStr ''A'')] \<and>
   round_trip flat_json (envelope ''A'' 1000 [(''timestamp'', JStr ''never''), (''text'', JStr ''hello world'')]) =
     Some (JObj (envelope ''A'' 1000 [(''timestamp'', JStr ''never''), (''text'', JStr ''hello world'')])) \<and>
   snd (snd (step flat_json (snd (subscribe constructor ''A'' 7))
       (Publish ''A'' [(''timestamp'', JStr ''never''), (''text'', JStr ''hello world'')] 1000))) =
     [\<lparr>via = 0, fn = 7,
       arg = JObj [(''timestamp'', JNum 1000), (''text'', JStr ''hello world''), (''channel'', JStr ''A'')]\<rparr>]"
proof -
  have h: "\<not> disabled (snd (subscribe constructor ''A'' 7))" by code_simp
  have e: "envelope ''A'' 1000 [(''timestamp'', JStr ''never''), (''text'', JStr ''hello world'')] =
     [(''timestamp'', JNum 1000), (''text'', JStr ''hello world''), (''channel'', JStr ''A'')]"
    by code_simp
  have r: "round_trip flat_json (envelope ''A'' 1000 [(''timestamp'', JStr ''never''), (''text'', JStr ''hello world'')]) =
     Some (JObj (envelope ''A'' 1000 [(''timestamp'', JStr ''never''), (''text'', JStr ''hello world'')]))"
    by code_simp
  have s: "snd (snd (step flat_json (snd (subscribe constructor ''A'' 7))
       (Publish ''A'' [(''timestamp'', JStr ''never''), (''text'', JStr ''hello world'')] 1000))) =
     [\<lparr>via = 0, fn = 7,
       arg = JObj [(''timestamp'', JNum 1000), (''text'', JStr ''hello world''), (''channel'', JStr ''A'')]\<rparr>]"
    by code_simp
  from payload_stamped [OF h, of flat_json 1000 "''A''"
      "[(''timestamp'', JStr ''never''), (''text'', JStr ''hello world'')]"]
  have "snd (snd (publish flat_json 1000 (snd (subscribe constructor ''A'' 7)) ''A''
       [(''timestamp'', JStr ''never''), (''text'', JStr ''hello world'')])) =
     envelope ''A'' 1000 [(''timestamp'', JStr ''never''), (''text'', JStr ''hello world'')]"
    by blast
  with h e r s show ?thesis by (simp only: simp_thms)
qed

text \<open>
  Claim C10. In an enabled \<open>publish\<close> on a channel other than "all", the two commands
  carry the same string, the value of the one serialization of the stamped object. So
  the message that reaches the subscribers of "all" and the one that reaches the
  subscribers of the channel are the same text, and every callback called for either is
  handed the same value, with the same timestamp. (That the codec runs once is the single
  binding of \<open>serial\<close> in \<open>publish\<close>; the codec is a function here, so a second run
  could not be told from the first.)
\<close>

theorem one_serialization:
  assumes "channel \<noteq> channels_ALL" and "\<not> disabled this" and "publisher this = Some p"
    and "serialize J (envelope channel now data) = Inr serial"
  shows "issued (publisher this) (publisher (fst (snd (publish J now this channel data)))) =
           [PUBLISH channels_ALL serial, PUBLISH channel serial] \<and>
         (\<forall>s v. subscriber this = Some s \<longrightarrow> deserialize J serial = Inr v \<longrightarrow>
            deliver J s channels_ALL serial = (map (call_of v) (audience s channels_ALL), None) \<and>
            deliver J s channel serial = (map (call_of v) (audience s channel), None) \<and>
            snd (snd (step J this (Publish channel data now))) =
              map (call_of v) (audience s channels_ALL @ audience s channel))"
  using assms
  by (simp add: publish_enabled issued_append step_publish_enabled deliver_ok)

text \<open>One subscriber on "all" and one on X; a publication on X reaches both.\<close>

theorem one_serialization_witness:
  \<open>''X'' \<noteq> channels_ALL \<and>
   \<not> disabled (fst (snd (run flat_json constructor [Subscribe ''all'' 1, Subscribe ''X'' 2]))) \<and>
   publisher (fst (snd (run flat_json constructor [Subscribe ''all'' 1, Subscribe ''X'' 2]))) = Some new_Redis \<and>
   serialize flat_json (envelope ''X'' 1000 [(''id'', JNum 1)]) =
     Inr ''{"id":1,"timestamp":1000,"channel":"X"}'' \<and>
   deserialize flat_json ''{"id":1,"timestamp":1000,"channel":"X"}'' =
     Inr (JObj [(''id'', JNum 1), (''timestamp'', JNum 1000), (''channel'', JStr ''X'')]) \<and>
   issued (publisher (fst (snd (run flat_json constructor [Subscribe ''all'' 1, Subscribe ''X'' 2]))))
     (publisher (fst (snd (publish flat_json 1000
        (fst (snd (run flat_json constructor [Subscribe ''all'' 1, Subscribe ''X'' 2])))
        ''X'' [(''id'', JNum 1)])))) =
     [PUBLISH ''all'' ''{"id":1,"timestamp":1000,"channel":"X"}'',
      PUBLISH ''X'' ''{"id":1,"timestamp":1000,"channel":"X"}''] \<and>
   snd (snd (step flat_json (fst (snd (run flat_json constructor [Subscribe ''all'' 1, Subscribe ''X'' 2])))
      (Publish ''X'' [(''id'', JNum 1)] 1000))) =
     [\<lparr>via = 0, fn = 1,
        arg = JObj [(''id'', JNum 1), (''timestamp'', JNum 1000), (''channel'', JStr ''X'')]\<rparr>,
      \<lparr>via = 1, fn = 2,
        arg = JObj [(''id'', JNum 1), (''timestamp'', JNum 1000), (''channel'', JStr ''X'')]\<rparr>]\<close>
proof -
  let ?t = "fst (snd (run flat_json constructor [Subscribe ''all'' 1, Subscribe ''X'' 2]))"
  have h1: "''X'' \<noteq> channels_ALL" by code_simp
  have h2: "\<not> disabled ?t" by code_simp
  have h3: "publisher ?t = Some new_Redis" by code_simp
  have h4: \<open>serialize flat_json (envelope ''X'' 1000 [(''id'', JNum 1)]) =
     Inr ''{"id":1,"timestamp":1000,"channel":"X"}''\<close> by code_simp
  have h5: \<open>deserialize flat_json ''{"id":1,"timestamp":1000,"channel":"X"}'' =
     Inr (JObj [(''id'', JNum 1), (''timestamp'', JNum 1000), (''channel'', JStr ''X'')])\<close>
    by code_simp
  have h6: "subscriber ?t = Some \<lparr>commands = [SUBSCRIBE ''all'', SUBSCRIBE ''X''],
      subscribed = [''X'', ''all''],
      listeners = [\<lparr>closure_id = 0, closure_channel = ''all'', closure_callback = 1\<rparr>,
                   \<lparr>closure_id = 1, closure_channel = ''X'', closure_callback = 2\<rparr>]\<rparr>"
    by code_simp
  from one_serialization [OF h1 h2 h3 h4] h5 h6
  show ?thesis
    using h1 h2 h3 h4
    by (simp add: audience_def call_of_def channels_ALL_def)
qed

section \<open>Subscribing\<close>

text \<open>
  Claim C2. The filter that \<open>subscribe\<close> registers for channel X lets nothing through
  for a message tagged with another channel Y: its body yields no call (and no error,
  whatever the message text), and when the stream delivers a message tagged Y no call is
  made through this filter. Whenever a call is made through it, the tag of the message
  was X. Calls are told apart by the filter they come through, since the same callback
  may also be subscribed to Y.
\<close>

theorem channel_isolation:
  assumes "X \<noteq> Y" and "consistent this" and "\<not> disabled this" and "subscriber this = Some s"
  shows "\<exists>s'. subscribe this X callback =
           (None, this\<lparr>subscriber := Some s', closures := Suc (closures this)\<rparr>) \<and>
         listeners s' = listeners s @
           [\<lparr>closure_id = closures this, closure_channel = X, closure_callback = callback\<rparr>] \<and>
         subscription_call J
           \<lparr>closure_id = closures this, closure_channel = X, closure_callback = callback\<rparr> Y data =
           Inr [] \<and>
         (\<forall>i \<in> set (fst (deliver J s' Y data)). via i \<noteq> closures this) \<and>
         (\<forall>chnl m. \<forall>i \<in> set (fst (deliver J s' chnl m)). via i = closures this \<longrightarrow> chnl = X)"
proof -
  let ?f = "\<lparr>closure_id = closures this, closure_channel = X, closure_callback = callback\<rparr>"
  let ?s = "s\<lparr>commands := commands s @ [SUBSCRIBE X],
              subscribed := List.insert X (subscribed s),
              listeners := listeners s @ [?f]\<rparr>"
  from assms have old: "\<forall>f \<in> set (listeners s). closure_id f < closures this"
    by (simp add: consistent_def)
  have only: "chnl = X" if "i \<in> set (fst (deliver J ?s chnl m))" and "via i = closures this"
    for chnl m i
  proof -
    from deliver_filter [OF that(1)] obtain f where
      f: "f \<in> set (listeners ?s)" "closure_channel f = chnl" "via i = closure_id f" by blast
    with that(2) old have "f = ?f" by auto
    with f show ?thesis by simp
  qed
  have "subscribe this X callback =
           (None, this\<lparr>subscriber := Some ?s, closures := Suc (closures this)\<rparr>)"
    by (rule subscribe_enabled [OF assms(3,4)])
  moreover have "listeners ?s = listeners s @ [?f]" by simp
  moreover have "subscription_call J ?f Y data = Inr []"
    using assms(1) by (simp add: subscription_call_def)
  moreover have "\<forall>i \<in> set (fst (deliver J ?s Y data)). via i \<noteq> closures this"
    using only assms(1) by blast
  moreover have "\<forall>chnl m. \<forall>i \<in> set (fst (deliver J ?s chnl m)). via i = closures this \<longrightarrow> chnl = X"
    using only by blast
  ultimately show ?thesis by blast
qed

text \<open>
  The second test of the suite: a subscriber on Y, then one on X. A message tagged Y
  reaches the first only, and a publication on X the second only.
\<close>

theorem channel_isolation_witness:
  \<open>''X'' \<noteq> ''Y'' \<and>
   consistent (snd (subscribe constructor ''Y'' 1)) \<and>
   \<not> disabled (snd (subscribe constructor ''Y'' 1)) \<and>
   subscriber (snd (subscribe constructor ''Y'' 1)) =
     Some \<lparr>commands = [SUBSCRIBE ''Y''], subscribed = [''Y''],
           listeners = [\<lparr>closure_id = 0, closure_channel = ''Y'', closure_callback = 1\<rparr>]\<rparr> \<and>
   subscription_call flat_json
     \<lparr>closure_id = 1, closure_channel = ''X'', closure_callback = 2\<rparr>
     ''Y'' ''{"id":1,"timestamp":1000,"channel":"Y"}'' = Inr [] \<and>
   fst (deliver flat_json (the (subscriber (snd (subscribe (snd (subscribe constructor ''Y'' 1)) ''X'' 2))))
     ''Y'' ''{"id":1,"timestamp":1000,"channel":"Y"}'') =
     [\<lparr>via = 0, fn = 1,
       arg = JObj [(''id'', JNum 1), (''timestamp'', JNum 1000), (''channel'', JStr ''Y'')]\<rparr>] \<and>
   snd (snd (run flat_json constructor
     [Subscribe ''Y'' 1, Subscribe ''X'' 2, Publish ''X'' [(''id'', JNum 1)] 1000])) =
     [\<lparr>via = 1, fn = 2,
       arg = JObj [(''id'', JNum 1), (''timestamp'', JNum 1000), (''channel'', JStr ''X'')]\<rparr>]\<close>
proof -
  let ?t = "snd (subscribe constructor ''Y'' 1)"
  let ?s = "\<lparr>commands = [SUBSCRIBE ''Y''], subscribed = [''Y''],
           listeners = [\<lparr>closure_id = 0, closure_channel = ''Y'', closure_callback = 1\<rparr>]\<rparr>"
  have h1: "''X'' \<noteq> ''Y''" by simp
  have h2: "consistent ?t" by code_simp
  have h3: "\<not> disabled ?t" by code_simp
  have h4: "subscriber ?t = Some ?s" by code_simp
  have n: "closures ?t = 1" by code_simp
  have d: \<open>fst (deliver flat_json (the (subscriber (snd (subscribe ?t ''X'' 2))))
     ''Y'' ''{"id":1,"timestamp":1000,"channel":"Y"}'') =
     [\<lparr>via = 0, fn = 1,
       arg = JObj [(''id'', JNum 1), (''timestamp'', JNum 1000), (''channel'', JStr ''Y'')]\<rparr>]\<close>
    by code_simp
  have r: "snd (snd (run flat_json constructor
     [Subscribe ''Y'' 1, Subscribe ''X'' 2, Publish ''X'' [(''id'', JNum 1)] 1000])) =
     [\<lparr>via = 1, fn = 2,
       arg = JObj [(''id'', JNum 1), (''timestamp'', JNum 1000), (''channel'', JStr ''X'')]\<rparr>]"
    by code_simp
  from channel_isolation [OF h1 h2 h3 h4, of 2 flat_json \<open>''{"id":1,"timestamp":1000,"channel":"Y"}''\<close>]
  have \<open>subscription_call flat_json
     \<lparr>closure_id = closures ?t, closure_channel = ''X'', closure_callback = 2\<rparr>
     ''Y'' ''{"id":1,"timestamp":1000,"channel":"Y"}'' = Inr []\<close>
    by blast
  then have c: \<open>subscription_call flat_json
     \<lparr>closure_id = 1, closure_channel = ''X'', closure_callback = 2\<rparr>
     ''Y'' ''{"id":1,"timestamp":1000,"channel":"Y"}'' = Inr []\<close>
    by (simp only: n)
  from h1 h2 h3 h4 c d r show ?thesis by (simp only: simp_thms)
qed

text \<open>
  Claim C3. Every enabled \<open>subscribe\<close> appends one new filter, a function object of
  its own, to the listeners of the stream, whatever is registered already. Subscribing
  the same channel and callback twice leaves two filters, and a message of the channel
  that deserializes calls the callback once through each, after the filters registered
  before. After a \<open>subscribe\<close> on X, a script of N publications on X, each of which
  passes the codec, runs without error and calls the callback through the new filter
  exactly N times, in the order of the publications, each time with what the codec
  returns for that publication's envelope.
\<close>

theorem subscriptions_multiply:
  assumes "consistent this" and "\<not> disabled this"
    and "publisher this = Some p" and "subscriber this = Some s"
    and "deserialize J m = Inr v"
    and "\<forall>(d, n) \<in> set ps. round_trip J (envelope X n d) \<noteq> None"
  shows "\<exists>s1 s2.
     subscribe this X callback =
       (None, this\<lparr>subscriber := Some s1, closures := Suc (closures this)\<rparr>) \<and>
     listeners s1 = listeners s @
       [\<lparr>closure_id = closures this, closure_channel = X, closure_callback = callback\<rparr>] \<and>
     subscribe (snd (subscribe this X callback)) X callback =
       (None, this\<lparr>subscriber := Some s2, closures := Suc (Suc (closures this))\<rparr>) \<and>
     listeners s2 = listeners s @
       [\<lparr>closure_id = closures this, closure_channel = X, closure_callback = callback\<rparr>,
        \<lparr>closure_id = Suc (closures this), closure_channel = X, closure_callback = callback\<rparr>] \<and>
     deliver J s2 X m =
       (map (call_of v) (filter (\<lambda>g. closure_channel g = X) (listeners s)) @
        [\<lparr>via = closures this, fn = callback, arg = v\<rparr>,
         \<lparr>via = Suc (closures this), fn = callback, arg = v\<rparr>], None) \<and>
     fst (run J (snd (subscribe this X callback)) (map (\<lambda>(d, n). Publish X d n) ps)) = None \<and>
     filter (\<lambda>i. via i = closures this)
       (snd (snd (run J (snd (subscribe this X callback)) (map (\<lambda>(d, n). Publish X d n) ps)))) =
     map (\<lambda>(d, n). \<lparr>via = closures this, fn = callback,
                     arg = the (round_trip J (envelope X n d))\<rparr>) ps"
proof -
  let ?f = "\<lparr>closure_id = closures this, closure_channel = X, closure_callback = callback\<rparr>"
  let ?g = "\<lparr>closure_id = Suc (closures this), closure_channel = X, closure_callback = callback\<rparr>"
  let ?s1 = "s\<lparr>commands := commands s @ [SUBSCRIBE X],
              subscribed := List.insert X (subscribed s),
              listeners := listeners s @ [?f]\<rparr>"
  let ?t1 = "this\<lparr>subscriber := Some ?s1, closures := Suc (closures this)\<rparr>"
  let ?s2 = "?s1\<lparr>commands := commands ?s1 @ [SUBSCRIBE X],
              subscribed := List.insert X (subscribed ?s1),
              listeners := listeners ?s1 @ [?g]\<rparr>"
  have one: "subscribe this X callback = (None, ?t1)"
    by (rule subscribe_enabled [OF assms(2,4)])
  have en1: "\<not> disabled ?t1" and sub1: "subscriber ?t1 = Some ?s1" and pub1: "publisher ?t1 = Some p"
    using assms by simp_all
  have two: "subscribe ?t1 X callback =
      (None, this\<lparr>subscriber := Some ?s2, closures := Suc (Suc (closures this))\<rparr>)"
    using subscribe_enabled [OF en1 sub1, of X callback] by simp
  have del: "deliver J ?s2 X m =
       (map (call_of v) (filter (\<lambda>g. closure_channel g = X) (listeners s)) @
        [\<lparr>via = closures this, fn = callback, arg = v\<rparr>,
         \<lparr>via = Suc (closures this), fn = callback, arg = v\<rparr>], None)"
    by (simp add: deliver_ok [OF assms(5)] audience_def call_of_def)
  from consistent_subscribe [OF assms(1), of X callback] one
  have "distinct (map closure_id (listeners ?s1))" by (simp add: consistent_def)
  moreover have "?f \<in> set (listeners ?s1)" by simp
  moreover have "closure_channel ?f \<in> set (subscribed ?s1)" by simp
  moreover have "\<forall>(d, n) \<in> set ps. round_trip J (envelope (closure_channel ?f) n d) \<noteq> None"
    using assms(6) by simp
  ultimately have many:
    "fst (run J ?t1 (map (\<lambda>(d, n). Publish (closure_channel ?f) d n) ps)) = None \<and>
     filter (\<lambda>i. via i = closure_id ?f)
       (snd (snd (run J ?t1 (map (\<lambda>(d, n). Publish (closure_channel ?f) d n) ps)))) =
     map (\<lambda>(d, n). call_of (the (round_trip J (envelope (closure_channel ?f) n d))) ?f) ps"
    by (rule run_publish_multiplicity [OF en1 pub1 sub1])
  have "subscribe this X callback = (None, ?t1) \<and>
     listeners ?s1 = listeners s @ [?f] \<and>
     subscribe (snd (subscribe this X callback)) X callback =
       (None, this\<lparr>subscriber := Some ?s2, closures := Suc (Suc (closures this))\<rparr>) \<and>
     listeners ?s2 = listeners s @ [?f, ?g] \<and>
     deliver J ?s2 X m =
       (map (call_of v) (filter (\<lambda>g. closure_channel g = X) (listeners s)) @
        [\<lparr>via = closures this, fn = callback, arg = v\<rparr>,
         \<lparr>via = Suc (closures this), fn = callback, arg = v\<rparr>], None) \<and>
     fst (run J (snd (subscribe this X callback)) (map (\<lambda>(d, n). Publish X d n) ps)) = None \<and>
     filter (\<lambda>i. via i = closures this)
       (snd (snd (run J (snd (subscribe this X callback)) (map (\<lambda>(d, n). Publish X d n) ps)))) =
     map (\<lambda>(d, n). \<lparr>via = closures this, fn = callback,
                     arg = the (round_trip J (envelope X n d))\<rparr>) ps"
    using one two del many by (simp add: call_of_def)
  then show ?thesis by blast
qed

text \<open>
  The third test of the suite: one subscriber on B and three publications; and the same
  subscription made twice.
\<close>

theorem subscriptions_multiply_witness:
  \<open>consistent constructor \<and> \<not> disabled constructor \<and>
   publisher constructor = Some new_Redis \<and> subscriber constructor = Some new_Redis \<and>
   deserialize flat_json ''{"id":9,"timestamp":1000,"channel":"B"}'' =
     Inr (JObj [(''id'', JNum 9), (''timestamp'', JNum 1000), (''channel'', JStr ''B'')]) \<and>
   list_all (\<lambda>(d, n). round_trip flat_json (envelope ''B'' n d) \<noteq> None)
     [([(''id'', JNum 1)], 1000), ([(''id'', JNum 2)], 1001), ([(''id'', JNum 3)], 1002)] \<and>
   deliver flat_json
     (the (subscriber (snd (subscribe (snd (subscribe constructor ''B'' 5)) ''B'' 5))))
     ''B'' ''{"id":9,"timestamp":1000,"channel":"B"}'' =
     ([\<lparr>via = 0, fn = 5,
        arg = JObj [(''id'', JNum 9), (''timestamp'', JNum 1000), (''channel'', JStr ''B'')]\<rparr>,
       \<lparr>via = 1, fn = 5,
        arg = JObj [(''id'', JNum 9), (''timestamp'', JNum 1000), (''channel'', JStr ''B'')]\<rparr>],
      None) \<and>
   filter (\<lambda>i. via i = 0)
     (snd (snd (run flat_json (snd (subscribe constructor ''B'' 5))
        (map (\<lambda>(d, n). Publish ''B'' d n)
          [([(''id'', JNum 1)], 1000), ([(''id'', JNum 2)], 1001), ([(''id'', JNum 3)], 1002)])))) =
     [\<lparr>via = 0, fn = 5,
        arg = JObj [(''id'', JNum 1), (''timestamp'', JNum 1000), (''channel'', JStr ''B'')]\<rparr>,
      \<lparr>via = 0, fn = 5,
        arg = JObj [(''id'', JNum 2), (''timestamp'', JNum 1001), (''channel'', JStr ''B'')]\<rparr>,
      \<lparr>via = 0, fn = 5,
        arg = JObj [(''id'', JNum 3), (''timestamp'', JNum 1002), (''channel'', JStr ''B'')]\<rparr>] \<and>
   snd (snd (run flat_json constructor
     [Subscribe ''B'' 5, Publish ''B'' [(''id'', JNum 1)] 1000,
      Publish ''B'' [(''id'', JNum 2)] 1001, Publish ''B'' [(''id'', JNum 3)] 1002])) =
     [\<lparr>via = 0, fn = 5,
        arg = JObj [(''id'', JNum 1), (''timestamp'', JNum 1000), (''channel'', JStr ''B'')]\<rparr>,
      \<lparr>via = 0, fn = 5,
        arg = JObj [(''id'', JNum 2), (''timestamp'', JNum 1001), (''channel'', JStr ''B'')]\<rparr>,
      \<lparr>via = 0, fn = 5,
        arg = JObj [(''id'', JNum 3), (''timestamp'', JNum 1002), (''channel'', JStr ''B'')]\<rparr>]\<close>
proof -
  let ?ps = "[([(''id'', JNum 1)], 1000), ([(''id'', JNum 2)], 1001), ([(''id'', JNum 3)], 1002)]
               :: (jsobj \<times> int) list"
  have h1: "consistent constructor" by code_simp
  have h2: "\<not> disabled constructor" by code_simp
  have h3: "publisher constructor = Some new_Redis" by code_simp
  have h4: "subscriber constructor = Some new_Redis" by code_simp
  have h5: \<open>deserialize flat_json ''{"id":9,"timestamp":1000,"channel":"B"}'' =
     Inr (JObj [(''id'', JNum 9), (''timestamp'', JNum 1000), (''channel'', JStr ''B'')])\<close>
    by code_simp
  have h6': "list_all (\<lambda>(d, n). round_trip flat_json (envelope ''B'' n d) \<noteq> None) ?ps"
    by code_simp
  then have h6: "\<forall>(d, n) \<in> set ?ps. round_trip flat_json (envelope ''B'' n d) \<noteq> None"
    by (simp only: list_all_iff)
  have n: "closures constructor = 0" by code_simp
  have two: \<open>deliver flat_json
     (the (subscriber (snd (subscribe (snd (subscribe constructor ''B'' 5)) ''B'' 5))))
     ''B'' ''{"id":9,"timestamp":1000,"channel":"B"}'' =
     ([\<lparr>via = 0, fn = 5,
        arg = JObj [(''id'', JNum 9), (''timestamp'', JNum 1000), (''channel'', JStr ''B'')]\<rparr>,
       \<lparr>via = 1, fn = 5,
        arg = JObj [(''id'', JNum 9), (''timestamp'', JNum 1000), (''channel'', JStr ''B'')]\<rparr>],
      None)\<close>
    by code_simp
  have ev: "map (\<lambda>(d, n). \<lparr>via = 0, fn = 5, arg = the (round_trip flat_json (envelope ''B'' n d))\<rparr>) ?ps =
     [\<lparr>via = 0, fn = 5,
        arg = JObj [(''id'', JNum 1), (''timestamp'', JNum 1000), (''channel'', JStr ''B'')]\<rparr>,
      \<lparr>via = 0, fn = 5,
        arg = JObj [(''id'', JNum 2), (''timestamp'', JNum 1001), (''channel'', JStr ''B'')]\<rparr>,
      \<lparr>via = 0, fn = 5,
        arg = JObj [(''id'', JNum 3), (''timestamp'', JNum 1002), (''channel'', JStr ''B'')]\<rparr>]"
    by code_simp
  have all: "snd (snd (run flat_json constructor
     [Subscribe ''B'' 5, Publish ''B'' [(''id'', JNum 1)] 1000,
      Publish ''B'' [(''id'', JNum 2)] 1001, Publish ''B'' [(''id'', JNum 3)] 1002])) =
     [\<lparr>via = 0, fn = 5,
        arg = JObj [(''id'', JNum 1), (''timestamp'', JNum 1000), (''channel'', JStr ''B'')]\<rparr>,
      \<lparr>via = 0, fn = 5,
        arg = JObj [(''id'', JNum 2), (''timestamp'', JNum 1001), (''channel'', JStr ''B'')]\<rparr>,
      \<lparr>via = 0, fn = 5,
        arg = JObj [(''id'', JNum 3), (''timestamp'', JNum 1002), (''channel'', JStr ''B'')]\<rparr>]"
    by code_simp
  from subscriptions_multiply [OF h1 h2 h3 h4 h5 h6, of 5]
  have "filter (\<lambda>i. via i = closures constructor)
       (snd (snd (run flat_json (snd (subscribe constructor ''B'' 5))
          (map (\<lambda>(d, n). Publish ''B'' d n) ?ps)))) =
     map (\<lambda>(d, n). \<lparr>via = closures constructor, fn = 5,
                     arg = the (round_trip flat_json (envelope ''B'' n d))\<rparr>) ?ps"
    by blast
  then have many: "filter (\<lambda>i. via i = 0)
       (snd (snd (run flat_json (snd (subscribe constructor ''B'' 5))
          (map (\<lambda>(d, n). Publish ''B'' d n) ?ps)))) =
     [\<lparr>via = 0, fn = 5,
        arg = JObj [(''id'', JNum 1), (''timestamp'', JNum 1000), (''channel'', JStr ''B'')]\<rparr>,
      \<lparr>via = 0, fn = 5,
        arg = JObj [(''id'', JNum 2), (''timestamp'', JNum 1001), (''channel'', JStr ''B'')]\<rparr>,
      \<lparr>via = 0, fn = 5,
        arg = JObj [(''id'', JNum 3), (''timestamp'', JNum 1002), (''channel'', JStr ''B'')]\<rparr>]"
    by (simp only: n ev)
  from h1 h2 h3 h4 h5 h6' two many all show ?thesis by (simp only: simp_thms)
qed

section \<open>Unsubscribing\<close>

text \<open>
  Claim C4, as the code has it. An enabled \<open>unsubscribe\<close> with the function object of
  a registered filter of the channel removes that filter from the stream, keeps every
  other listener, in order, and unsubscribes the connection from the channel; it does
  not throw. The removed filter is never called again, whatever calls follow. The other
  filters of the channel stay registered but a message of the channel no longer reaches
  them: in every script of calls that follows and does not subscribe to the channel
  again, no call is made through any filter that was registered for the channel. A
  \<open>subscribe\<close> on the channel right after the \<open>unsubscribe\<close> subscribes the
  connection again, and a publication on the channel that follows it directly calls each
  of the remaining filters of the channel once. Messages of every other channel are
  delivered as before the call.
\<close>

theorem unsubscribe_drops_channel:
  assumes "consistent this" and "\<not> disabled this" and "publisher this = Some p"
    and "subscriber this = Some s" and "f \<in> set (listeners s)" and "closure_channel f = X"
  shows "\<exists>s'. unsubscribe this X (Closure (closure_id f)) = (None, this\<lparr>subscriber := Some s'\<rparr>) \<and>
     listeners s' = filter (\<lambda>g. g \<noteq> f) (listeners s) \<and>
     subscribed s' = removeAll X (subscribed s) \<and>
     (\<forall>data. deliver J s' X data = ([], None)) \<and>
     (\<forall>Y data. Y \<noteq> X \<longrightarrow> deliver J s' Y data = deliver J s Y data) \<and>
     (\<forall>qs. \<forall>i \<in> set (snd (snd (run J (this\<lparr>subscriber := Some s'\<rparr>) qs))).
        via i \<noteq> closure_id f) \<and>
     (\<forall>qs. (\<forall>q \<in> set qs. \<forall>cb. q \<noteq> Subscribe X cb) \<longrightarrow>
        (\<forall>i \<in> set (snd (snd (run J (this\<lparr>subscriber := Some s'\<rparr>) qs))).
           \<forall>g \<in> set (listeners s). closure_channel g = X \<longrightarrow> via i \<noteq> closure_id g)) \<and>
     (\<forall>cb d n v. round_trip J (envelope X n d) = Some v \<longrightarrow>
        (\<forall>g \<in> set (listeners s). g \<noteq> f \<longrightarrow> closure_channel g = X \<longrightarrow>
           filter (\<lambda>i. via i = closure_id g)
             (snd (snd (step J (snd (subscribe (this\<lparr>subscriber := Some s'\<rparr>) X cb))
                          (Publish X d n)))) = [call_of v g]))"
proof -
  let ?s = "s\<lparr>commands := commands s @ [UNSUBSCRIBE X],
              subscribed := removeAll X (subscribed s),
              listeners := filter (\<lambda>g. g \<noteq> f) (listeners s)\<rparr>"
  let ?t = "this\<lparr>subscriber := Some ?s\<rparr>"
  from assms(1,4) have dist: "distinct (map closure_id (listeners s))"
    and below: "\<forall>g \<in> set (listeners s). closure_id g < closures this"
    by (simp_all add: consistent_def)
  have fn: "Closure (closure_id f) \<noteq> NotFunction" by simp
  have "filter (\<lambda>g. closure_id g \<noteq> closure_id f) (listeners s) = filter (\<lambda>g. g \<noteq> f) (listeners s)"
    using distinct_same_id [OF dist _ assms(5)] by (intro filter_cong) auto
  then have un: "unsubscribe this X (Closure (closure_id f)) = (None, ?t)"
    by (simp only: unsubscribe_enabled [OF assms(2,4) fn] removed_registered [OF dist])
  from consistent_unsubscribe [OF assms(1), of X "Closure (closure_id f)"] un
  have cons: "consistent ?t" by simp
  have silent: "deliver J ?s X data = ([], None)" for data
    by (rule deliver_unsubscribed) simp
  have other: "deliver J ?s Y data = deliver J s Y data" if "Y \<noteq> X" for Y data
  proof (rule deliver_other_channel [OF that])
    show "Y \<in> set (subscribed ?s) \<longleftrightarrow> Y \<in> set (subscribed s)" using that by simp
    show "filter (\<lambda>g. closure_channel g = Y) (listeners ?s) =
          filter (\<lambda>g. closure_channel g = Y) (listeners s)"
      using that assms(6) by (auto intro: filter_cong)
  qed
  have never: "via i \<noteq> closure_id f" if "i \<in> set (snd (snd (run J ?t qs)))" for qs i
  proof (rule removed_filter_never_called [OF _ _ that])
    show "closure_id f < closures ?t" using below assms(5) by simp
    show "\<forall>s'. subscriber ?t = Some s' \<longrightarrow> (\<forall>h \<in> set (listeners s'). closure_id h \<noteq> closure_id f)"
      using distinct_same_id [OF dist _ assms(5)] by auto
  qed
  have quiet: "via i \<noteq> closure_id g"
    if "\<forall>q \<in> set qs. \<forall>cb. q \<noteq> Subscribe X cb" and "i \<in> set (snd (snd (run J ?t qs)))"
      and "g \<in> set (listeners s)" and "closure_channel g = X" for qs i g
  proof (rule channel_silent_until_subscribed [OF _ _ that(1,2)])
    show "closure_id g < closures ?t" using below that(3) by simp
    show "\<forall>s'. subscriber ?t = Some s' \<longrightarrow> X \<notin> set (subscribed s') \<and>
           (\<forall>h \<in> set (listeners s'). closure_id h = closure_id g \<longrightarrow> closure_channel h = X)"
      using distinct_same_id [OF dist _ that(3)] that(4) by auto
  qed
  have revive: "filter (\<lambda>i. via i = closure_id g)
             (snd (snd (step J (snd (subscribe ?t X cb)) (Publish X d n)))) = [call_of v g]"
    if "round_trip J (envelope X n d) = Some v" and "g \<in> set (listeners s)" and "g \<noteq> f"
      and "closure_channel g = X" for cb d n v g
  proof (rule resubscribe_revives [OF cons _ _ _ _ that(4) that(1)])
    show "\<not> disabled ?t" using assms(2) by simp
    show "publisher ?t = Some p" using assms(3) by simp
    show "subscriber ?t = Some ?s" by simp
    show "g \<in> set (listeners ?s)" using that(2,3) by simp
  qed
  have "unsubscribe this X (Closure (closure_id f)) = (None, ?t) \<and>
     listeners ?s = filter (\<lambda>g. g \<noteq> f) (listeners s) \<and>
     subscribed ?s = removeAll X (subscribed s) \<and>
     (\<forall>data. deliver J ?s X data = ([], None)) \<and>
     (\<forall>Y data. Y \<noteq> X \<longrightarrow> deliver J ?s Y data = deliver J s Y data) \<and>
     (\<forall>qs. \<forall>i \<in> set (snd (snd (run J ?t qs))). via i \<noteq> closure_id f) \<and>
     (\<forall>qs. (\<forall>q \<in> set qs. \<forall>cb. q \<noteq> Subscribe X cb) \<longrightarrow>
        (\<forall>i \<in> set (snd (snd (run J ?t qs))).
           \<forall>g \<in> set (listeners s). closure_channel g = X \<longrightarrow> via i \<noteq> closure_id g)) \<and>
     (\<forall>cb d n v. round_trip J (envelope X n d) = Some v \<longrightarrow>
        (\<forall>g \<in> set (listeners s). g \<noteq> f \<longrightarrow> closure_channel g = X \<longrightarrow>
           filter (\<lambda>i. via i = closure_id g)
             (snd (snd (step J (snd (subscribe ?t X cb)) (Publish X d n)))) = [call_of v g]))"
  proof (intro conjI allI impI ballI)
    show "unsubscribe this X (Closure (closure_id f)) = (None, ?t)" by (rule un)
  qed (simp_all add: silent other never quiet revive del: step.simps)
  then show ?thesis by (rule exI [of _ ?s])
qed

text \<open>
  Two subscribers on X and one on Y; the first filter of X is removed by its own
  function object. The second filter of X stays registered; a publication on X calls
  nobody, a publication on Y calls the subscriber of Y, and after a new subscriber on X
  a publication on X calls the second filter and the new one.
\<close>

theorem unsubscribe_drops_channel_witness:
  \<open>consistent (fst (snd (run flat_json constructor
      [Subscribe ''X'' 1, Subscribe ''X'' 2, Subscribe ''Y'' 3]))) \<and>
   \<not> disabled (fst (snd (run flat_json constructor
      [Subscribe ''X'' 1, Subscribe ''X'' 2, Subscribe ''Y'' 3]))) \<and>
   publisher (fst (snd (run flat_json constructor
      [Subscribe ''X'' 1, Subscribe ''X'' 2, Subscribe ''Y'' 3]))) = Some new_Redis \<and>
   subscriber (fst (snd (run flat_json constructor
      [Subscribe ''X'' 1, Subscribe ''X'' 2, Subscribe ''Y'' 3]))) =
     Some \<lparr>commands = [SUBSCRIBE ''X'', SUBSCRIBE ''X'', SUBSCRIBE ''Y''],
           subscribed = [''Y'', ''X''],
           listeners = [\<lparr>closure_id = 0, closure_channel = ''X'', closure_callback = 1\<rparr>,
                        \<lparr>closure_id = 1, closure_channel = ''X'', closure_callback = 2\<rparr>,
                        \<lparr>closure_id = 2, closure_channel = ''Y'', closure_callback = 3\<rparr>]\<rparr> \<and>
   deliver flat_json
     (the (subscriber (snd (unsubscribe
        (fst (snd (run flat_json constructor
           [Subscribe ''X'' 1, Subscribe ''X'' 2, Subscribe ''Y'' 3])))
        ''X'' (Closure 0)))))
     ''X'' ''{"id":1,"timestamp":1000,"channel":"X"}'' = ([], None) \<and>
   listeners (the (subscriber (snd (unsubscribe
        (fst (snd (run flat_json constructor
           [Subscribe ''X'' 1, Subscribe ''X'' 2, Subscribe ''Y'' 3])))
        ''X'' (Closure 0))))) =
     [\<lparr>closure_id = 1, closure_channel = ''X'', closure_callback = 2\<rparr>,
      \<lparr>closure_id = 2, closure_channel = ''Y'', closure_callback = 3\<rparr>] \<and>
   snd (snd (run flat_json constructor
      [Subscribe ''X'' 1, Subscribe ''X'' 2, Subscribe ''Y'' 3, Unsubscribe ''X'' (Closure 0),
       Publish ''X'' [(''id'', JNum 1)] 1000, Publish ''Y'' [(''id'', JNum 2)] 1001,
       Subscribe ''X'' 4, Publish ''X'' [(''id'', JNum 3)] 1002])) =
     [\<lparr>via = 2, fn = 3,
       arg = JObj [(''id'', JNum 2), (''timestamp'', JNum 1001), (''channel'', JStr ''Y'')]\<rparr>,
      \<lparr>via = 1, fn = 2,
       arg = JObj [(''id'', JNum 3), (''timestamp'', JNum 1002), (''channel'', JStr ''X'')]\<rparr>,
      \<lparr>via = 3, fn = 4,
       arg = JObj [(''id'', JNum 3), (''timestamp'', JNum 1002), (''channel'', JStr ''X'')]\<rparr>]\<close>
proof -
  let ?t = "fst (snd (run flat_json constructor
      [Subscribe ''X'' 1, Subscribe ''X'' 2, Subscribe ''Y'' 3]))"
  let ?f = "\<lparr>closure_id = 0, closure_channel = ''X'', closure_callback = 1\<rparr>"
  let ?s = "\<lparr>commands = [SUBSCRIBE ''X'', SUBSCRIBE ''X'', SUBSCRIBE ''Y''],
           subscribed = [''Y'', ''X''],
           listeners = [?f,
                        \<lparr>closure_id = 1, closure_channel = ''X'', closure_callback = 2\<rparr>,
                        \<lparr>closure_id = 2, closure_channel = ''Y'', closure_callback = 3\<rparr>]\<rparr>"
  have h1: "consistent ?t" by code_simp
  have h2: "\<not> disabled ?t" by code_simp
  have h3: "publisher ?t = Some new_Redis" by code_simp
  have h4: "subscriber ?t = Some ?s" by code_simp
  have h5: "?f \<in> set (listeners ?s)" by simp
  have h6: "closure_channel ?f = ''X''" by simp
  have r: "snd (snd (run flat_json constructor
      [Subscribe ''X'' 1, Subscribe ''X'' 2, Subscribe ''Y'' 3, Unsubscribe ''X'' (Closure 0),
       Publish ''X'' [(''id'', JNum 1)] 1000, Publish ''Y'' [(''id'', JNum 2)] 1001,
       Subscribe ''X'' 4, Publish ''X'' [(''id'', JNum 3)] 1002])) =
     [\<lparr>via = 2, fn = 3,
       arg = JObj [(''id'', JNum 2), (''timestamp'', JNum 1001), (''channel'', JStr ''Y'')]\<rparr>,
      \<lparr>via = 1, fn = 2,
       arg = JObj [(''id'', JNum 3), (''timestamp'', JNum 1002), (''channel'', JStr ''X'')]\<rparr>,
      \<lparr>via = 3, fn = 4,
       arg = JObj [(''id'', JNum 3), (''timestamp'', JNum 1002), (''channel'', JStr ''X'')]\<rparr>]"
    by code_simp
  have id: "Closure (closure_id ?f) = Closure 0" by simp
  have rest: "filter (\<lambda>g. g \<noteq> ?f) (listeners ?s) =
     [\<lparr>closure_id = 1, closure_channel = ''X'', closure_callback = 2\<rparr>,
      \<lparr>closure_id = 2, closure_channel = ''Y'', closure_callback = 3\<rparr>]"
    by simp
  from unsubscribe_drops_channel [OF h1 h2 h3 h4 h5 h6, of flat_json]
  obtain s' where
    un: "unsubscribe ?t ''X'' (Closure (closure_id ?f)) = (None, ?t\<lparr>subscriber := Some s'\<rparr>)"
    and ls: "listeners s' = filter (\<lambda>g. g \<noteq> ?f) (listeners ?s)"
    and quiet: "\<forall>data. deliver flat_json s' ''X'' data = ([], None)"
    by (elim exE conjE) (rule that)
  from un have s': "the (subscriber (snd (unsubscribe ?t ''X'' (Closure 0)))) = s'"
    by (simp only: id the_subscriber_update)
  from quiet have q: \<open>deliver flat_json (the (subscriber (snd (unsubscribe ?t ''X'' (Closure 0)))))
      ''X'' ''{"id":1,"timestamp":1000,"channel":"X"}'' = ([], None)\<close>
    by (simp only: s')
  from ls have l: "listeners (the (subscriber (snd (unsubscribe ?t ''X'' (Closure 0))))) =
     [\<lparr>closure_id = 1, closure_channel = ''X'', closure_callback = 2\<rparr>,
      \<lparr>closure_id = 2, closure_channel = ''Y'', closure_callback = 3\<rparr>]"
    by (simp only: s' rest)
  from h1 h2 h3 h4 q l r show ?thesis by (simp only: simp_thms)
qed

text \<open>
  Claim C4 as stated says that the other filter of the channel continues to fire. With
  two subscribers on X, the publication on X calls both; after the first is removed by
  its exact function object, the second is still registered, and the same publication
  calls nobody.
\<close>

theorem other_filters_stop_firing:
  "snd (snd (run flat_json constructor
      [Subscribe ''X'' 1, Subscribe ''X'' 2, Unsubscribe ''X'' (Closure 0),
       Publish ''X'' [(''id'', JNum 1)] 1000])) = [] \<and>
   listeners (the (subscriber (fst (snd (run flat_json constructor
      [Subscribe ''X'' 1, Subscribe ''X'' 2, Unsubscribe ''X'' (Closure 0),
       Publish ''X'' [(''id'', JNum 1)] 1000]))))) =
     [\<lparr>closure_id = 1, closure_channel = ''X'', closure_callback = 2\<rparr>] \<and>
   snd (snd (run flat_json constructor
      [Subscribe ''X'' 1, Subscribe ''X'' 2, Publish ''X'' [(''id'', JNum 1)] 1000])) =
     [\<lparr>via = 0, fn = 1,
       arg = JObj [(''id'', JNum 1), (''timestamp'', JNum 1000), (''channel'', JStr ''X'')]\<rparr>,
      \<lparr>via = 1, fn = 2,
       arg = JObj [(''id'', JNum 1), (''timestamp'', JNum 1000), (''channel'', JStr ''X'')]\<rparr>]"
  by code_simp

text \<open>
  Claim C7, as the code has it, for a handle that is a function. An enabled
  \<open>unsubscribe\<close> with a function object that is no listener of the stream (a callback
  of the caller, or an arrow function never registered or already removed) returns
  without an error and leaves the listeners as they are; it still unsubscribes the
  connection from the channel. So in every script of calls that follows and does not
  subscribe to the channel again, no call is made through any filter registered for the
  channel; a \<open>subscribe\<close> on the channel right after the \<open>unsubscribe\<close>
  subscribes the connection again, and a publication on the channel that follows it
  directly calls each of these filters once. Messages of every other channel are
  delivered as before the call.
\<close>

theorem unsubscribe_unknown_handle:
  assumes "consistent this" and "\<not> disabled this" and "publisher this = Some p"
    and "subscriber this = Some s" and "h \<noteq> NotFunction"
    and "\<forall>f \<in> set (listeners s). Closure (closure_id f) \<noteq> h"
  shows "unsubscribe this X h = (None, this\<lparr>subscriber := Some (redis_unsubscribe s X)\<rparr>) \<and>
     listeners (redis_unsubscribe s X) = listeners s \<and>
     subscribed (redis_unsubscribe s X) = removeAll X (subscribed s) \<and>
     (\<forall>data. deliver J (redis_unsubscribe s X) X data = ([], None)) \<and>
     (\<forall>Y data. Y \<noteq> X \<longrightarrow> deliver J (redis_unsubscribe s X) Y data = deliver J s Y data) \<and>
     (\<forall>qs. (\<forall>q \<in> set qs. \<forall>cb. q \<noteq> Subscribe X cb) \<longrightarrow>
        (\<forall>i \<in> set (snd (snd (run J (this\<lparr>subscriber := Some (redis_unsubscribe s X)\<rparr>) qs))).
           \<forall>g \<in> set (listeners s). closure_channel g = X \<longrightarrow> via i \<noteq> closure_id g)) \<and>
     (\<forall>cb d n v. round_trip J (envelope X n d) = Some v \<longrightarrow>
        (\<forall>g \<in> set (listeners s). closure_channel g = X \<longrightarrow>
           filter (\<lambda>i. via i = closure_id g)
             (snd (snd (step J (snd (subscribe (this\<lparr>subscriber := Some (redis_unsubscribe s X)\<rparr>) X cb))
                          (Publish X d n)))) = [call_of v g]))"
proof -
  let ?s = "redis_unsubscribe s X"
  let ?t = "this\<lparr>subscriber := Some ?s\<rparr>"
  from assms(1,4) have dist: "distinct (map closure_id (listeners s))"
    and below: "\<forall>g \<in> set (listeners s). closure_id g < closures this"
    by (simp_all add: consistent_def)
  have ls: "listeners ?s = listeners s" and sb: "subscribed ?s = removeAll X (subscribed s)"
    by (simp_all add: redis_unsubscribe_def)
  have un: "unsubscribe this X h = (None, ?t)"
    by (simp add: unsubscribe_enabled [OF assms(2,4,5)] removed_unregistered [OF assms(6)]
        redis_unsubscribe_def)
  from consistent_unsubscribe [OF assms(1), of X h] un
  have cons: "consistent ?t" by simp
  have silent: "deliver J ?s X data = ([], None)" for data
    by (rule deliver_unsubscribed) (simp add: sb)
  have other: "deliver J ?s Y data = deliver J s Y data" if "Y \<noteq> X" for Y data
    using that by (simp add: deliver_def ls sb)
  have quiet: "via i \<noteq> closure_id g"
    if "\<forall>q \<in> set qs. \<forall>cb. q \<noteq> Subscribe X cb" and "i \<in> set (snd (snd (run J ?t qs)))"
      and "g \<in> set (listeners s)" and "closure_channel g = X" for qs i g
  proof (rule channel_silent_until_subscribed [OF _ _ that(1,2)])
    show "closure_id g < closures ?t" using below that(3) by simp
    show "\<forall>s'. subscriber ?t = Some s' \<longrightarrow> X \<notin> set (subscribed s') \<and>
           (\<forall>h \<in> set (listeners s'). closure_id h = closure_id g \<longrightarrow> closure_channel h = X)"
      using distinct_same_id [OF dist _ that(3)] that(4) by (auto simp: ls sb)
  qed
  have revive: "filter (\<lambda>i. via i = closure_id g)
             (snd (snd (step J (snd (subscribe ?t X cb)) (Publish X d n)))) = [call_of v g]"
    if "round_trip J (envelope X n d) = Some v" and "g \<in> set (listeners s)"
      and "closure_channel g = X" for cb d n v g
  proof (rule resubscribe_revives [OF cons _ _ _ _ that(3) that(1)])
    show "\<not> disabled ?t" using assms(2) by simp
    show "publisher ?t = Some p" using assms(3) by simp
    show "subscriber ?t = Some ?s" by simp
    show "g \<in> set (listeners ?s)" using that(2) by (simp add: ls)
  qed
  show ?thesis
  proof (intro conjI allI impI ballI)
    show "unsubscribe this X h = (None, ?t)" by (rule un)
  qed (simp_all add: ls sb silent other quiet revive del: step.simps)
qed

text \<open>
  The fourth test of the suite unsubscribes with the callback, which is no listener:
  the next publication calls nobody, and after a second subscriber on the channel a
  publication calls both.
\<close>

theorem unsubscribe_unknown_handle_witness:
  \<open>consistent (snd (subscribe constructor ''C'' 1)) \<and>
   \<not> disabled (snd (subscribe constructor ''C'' 1)) \<and>
   publisher (snd (subscribe constructor ''C'' 1)) = Some new_Redis \<and>
   subscriber (snd (subscribe constructor ''C'' 1)) =
     Some \<lparr>commands = [SUBSCRIBE ''C''], subscribed = [''C''],
           listeners = [\<lparr>closure_id = 0, closure_channel = ''C'', closure_callback = 1\<rparr>]\<rparr> \<and>
   Callback 1 \<noteq> NotFunction \<and>
   list_all (\<lambda>f. Closure (closure_id f) \<noteq> Callback 1)
     [\<lparr>closure_id = 0, closure_channel = ''C'', closure_callback = 1\<rparr>] \<and>
   unsubscribe (snd (subscribe constructor ''C'' 1)) ''C'' (Callback 1) =
     (None, snd (subscribe constructor ''C'' 1)
        \<lparr>subscriber := Some (redis_unsubscribe
           \<lparr>commands = [SUBSCRIBE ''C''], subscribed = [''C''],
            listeners = [\<lparr>closure_id = 0, closure_channel = ''C'', closure_callback = 1\<rparr>]\<rparr>
           ''C'')\<rparr>) \<and>
   redis_unsubscribe
     \<lparr>commands = [SUBSCRIBE ''C''], subscribed = [''C''],
      listeners = [\<lparr>closure_id = 0, closure_channel = ''C'', closure_callback = 1\<rparr>]\<rparr> ''C'' =
     \<lparr>commands = [SUBSCRIBE ''C'', UNSUBSCRIBE ''C''], subscribed = [],
      listeners = [\<lparr>closure_id = 0, closure_channel = ''C'', closure_callback = 1\<rparr>]\<rparr> \<and>
   deliver flat_json
     (redis_unsubscribe
        \<lparr>commands = [SUBSCRIBE ''C''], subscribed = [''C''],
         listeners = [\<lparr>closure_id = 0, closure_channel = ''C'', closure_callback = 1\<rparr>]\<rparr> ''C'')
     ''C'' ''{"id":1,"timestamp":1000,"channel":"C"}'' = ([], None) \<and>
   snd (snd (run flat_json constructor
      [Subscribe ''C'' 1, Unsubscribe ''C'' (Callback 1), Publish ''C'' [(''id'', JNum 1)] 1000,
       Subscribe ''C'' 2, Publish ''C'' [(''id'', JNum 2)] 1001])) =
     [\<lparr>via = 0, fn = 1,
       arg = JObj [(''id'', JNum 2), (''timestamp'', JNum 1001), (''channel'', JStr ''C'')]\<rparr>,
      \<lparr>via = 1, fn = 2,
       arg = JObj [(''id'', JNum 2), (''timestamp'', JNum 1001), (''channel'', JStr ''C'')]\<rparr>]\<close>
proof -
  let ?t = "snd (subscribe constructor ''C'' 1)"
  let ?s = "\<lparr>commands = [SUBSCRIBE ''C''], subscribed = [''C''],
           listeners = [\<lparr>closure_id = 0, closure_channel = ''C'', closure_callback = 1\<rparr>]\<rparr>"
  have h1: "consistent ?t" by code_simp
  have h2: "\<not> disabled ?t" by code_simp
  have h3: "publisher ?t = Some new_Redis" by code_simp
  have h4: "subscriber ?t = Some ?s" by code_simp
  have h5: "Callback 1 \<noteq> NotFunction" by simp
  have h6: "\<forall>f \<in> set (listeners ?s). Closure (closure_id f) \<noteq> Callback 1" by simp
  have h6': "list_all (\<lambda>f. Closure (closure_id f) \<noteq> Callback 1)
     [\<lparr>closure_id = 0, closure_channel = ''C'', closure_callback = 1\<rparr>]" by simp
  have e: "redis_unsubscribe ?s ''C'' =
     \<lparr>commands = [SUBSCRIBE ''C'', UNSUBSCRIBE ''C''], subscribed = [],
      listeners = [\<lparr>closure_id = 0, closure_channel = ''C'', closure_callback = 1\<rparr>]\<rparr>"
    by code_simp
  have r: "snd (snd (run flat_json constructor
      [Subscribe ''C'' 1, Unsubscribe ''C'' (Callback 1), Publish ''C'' [(''id'', JNum 1)] 1000,
       Subscribe ''C'' 2, Publish ''C'' [(''id'', JNum 2)] 1001])) =
     [\<lparr>via = 0, fn = 1,
       arg = JObj [(''id'', JNum 2), (''timestamp'', JNum 1001), (''channel'', JStr ''C'')]\<rparr>,
      \<lparr>via = 1, fn = 2,
       arg = JObj [(''id'', JNum 2), (''timestamp'', JNum 1001), (''channel'', JStr ''C'')]\<rparr>]"
    by code_simp
  note w = unsubscribe_unknown_handle [OF h1 h2 h3 h4 h5 h6, of "''C''" flat_json]
  from w have un: "unsubscribe ?t ''C'' (Callback 1) =
      (None, ?t\<lparr>subscriber := Some (redis_unsubscribe ?s ''C'')\<rparr>)"
    by (elim conjE)
  from w have "\<forall>data. deliver flat_json (redis_unsubscribe ?s ''C'') ''C'' data = ([], None)"
    by (elim conjE)
  then have q: \<open>deliver flat_json (redis_unsubscribe ?s ''C'')
      ''C'' ''{"id":1,"timestamp":1000,"channel":"C"}'' = ([], None)\<close>
    by (rule spec)
  from h1 h2 h3 h4 h5 h6' un e q r show ?thesis by (simp only: simp_thms)
qed

text \<open>
  Claim C7 as stated says that delivery to the existing filters of the channel is not
  affected. The script of the fourth test, with a function that was never handed to
  the library in place of the callback, ends with one call; without its
  \<open>unsubscribe\<close> the same script makes three.
\<close>

theorem unknown_handle_stops_delivery:
  "snd (snd (run flat_json constructor
      [Subscribe ''C'' 1, Publish ''C'' [(''id'', JNum 1)] 1000,
       Unsubscribe ''C'' (Callback 9),
       Publish ''C'' [(''id'', JNum 2)] 1001, Publish ''C'' [(''id'', JNum 3)] 1002])) =
     [\<lparr>via = 0, fn = 1,
       arg = JObj [(''id'', JNum 1), (''timestamp'', JNum 1000), (''channel'', JStr ''C'')]\<rparr>] \<and>
   snd (snd (run flat_json constructor
      [Subscribe ''C'' 1, Publish ''C'' [(''id'', JNum 1)] 1000,
       Publish ''C'' [(''id'', JNum 2)] 1001, Publish ''C'' [(''id'', JNum 3)] 1002])) =
     [\<lparr>via = 0, fn = 1,
       arg = JObj [(''id'', JNum 1), (''timestamp'', JNum 1000), (''channel'', JStr ''C'')]\<rparr>,
      \<lparr>via = 0, fn = 1,
       arg = JObj [(''id'', JNum 2), (''timestamp'', JNum 1001), (''channel'', JStr ''C'')]\<rparr>,
      \<lparr>via = 0, fn = 1,
       arg = JObj [(''id'', JNum 3), (''timestamp'', JNum 1002), (''channel'', JStr ''C'')]\<rparr>]"
  by code_simp

text \<open>
  The call in the example of the class comment leaves the handle out. The connection is
  unsubscribed from the channel, then \<open>removeListener\<close> throws on the value that is
  not a function, and the listener stays registered.
\<close>

lemma unsubscribe_without_handle:
  "unsubscribe (snd (subscribe constructor ''all'' 1)) ''all'' NotFunction =
     (Some TypeError,
      snd (subscribe constructor ''all'' 1)
        \<lparr>subscriber := Some
           \<lparr>commands = [SUBSCRIBE ''all'', UNSUBSCRIBE ''all''], subscribed = [],
            listeners = [\<lparr>closure_id = 0, closure_channel = ''all'', closure_callback = 1\<rparr>]\<rparr>\<rparr>)"
  by code_simp

end
